theory Spec2Isabelle
  imports Main "HOL-Library.Word"
begin

unbundle bit_operations_syntax

section \<open>Go slices over an explicit store\<close>

text \<open>
  The buffer of \<^verbatim>\<open>safebuffer.go\<close> is a Go slice, and a sub-buffer shares the backing
  array of its parent. The store is therefore explicit: a heap is the list of the backing
  arrays allocated so far (the index of an array is its identity), and a slice is a
  descriptor into one of them, with the length and the capacity Go keeps for it.
  Go's \<^verbatim>\<open>int\<close> has 64 bits and is modelled as \<open>int\<close>. The one sum that a caller can
  push out of the range of \<^verbatim>\<open>int64\<close> is the length asked of \<^verbatim>\<open>make\<close>; see \<open>wrap64\<close> below.
\<close>

type_synonym byte = "8 word"

type_synonym heap = "byte list list"

record slice =
  arr :: nat
  lo :: nat
  len :: nat
  cap :: nat

datatype panic = IndexOutOfRange | SliceBoundsOutOfRange | MakesliceLenOutOfRange

text \<open>Sequencing of steps that may panic: the first panic ends the call.\<close>

definition and_then :: "panic + 'a \<Rightarrow> ('a \<Rightarrow> panic + 'b) \<Rightarrow> panic + 'b" where
  "and_then r k = (case r of Inl e \<Rightarrow> Inl e | Inr x \<Rightarrow> k x)"

text \<open>A slice lies inside its backing array, and its length is at most its capacity.\<close>

definition slice_ok :: "heap \<Rightarrow> slice \<Rightarrow> bool" where
  "slice_ok h s \<longleftrightarrow> arr s < length h \<and> len s \<le> cap s \<and> lo s + cap s \<le> length (h ! arr s)"

text \<open>The bytes \<^verbatim>\<open>s[0:len(s)]\<close>.\<close>

definition slice_bytes :: "heap \<Rightarrow> slice \<Rightarrow> byte list" where
  "slice_bytes h s = take (len s) (drop (lo s) (h ! arr s))"

text \<open>Writing the bytes \<open>bs\<close> at \<^verbatim>\<open>s[k:k+len(bs)]\<close>, all at once.\<close>

definition store_at :: "heap \<Rightarrow> slice \<Rightarrow> nat \<Rightarrow> byte list \<Rightarrow> heap" where
  "store_at h s k bs =
     h[arr s := take (lo s + k) (h ! arr s) @ bs @ drop (lo s + k + length bs) (h ! arr s)]"

text \<open>\<^verbatim>\<open>make([]byte, n)\<close> and \<^verbatim>\<open>make([]byte, n, n)\<close>. The runtime (\<^verbatim>\<open>makeslice\<close>) panics with
  "len out of range" for a negative length and for one above \<^verbatim>\<open>maxAlloc\<close>, which is \<open>2^48\<close>
  bytes on the 64-bit platforms; a length within the limit gives a fresh zeroed array
  (running out of memory below the limit is a fatal error, not a panic, and is not
  modelled).\<close>

definition maxAlloc :: int where
  "maxAlloc = 2 ^ 48"

definition make_bytes :: "heap \<Rightarrow> int \<Rightarrow> panic + heap \<times> slice" where
  "make_bytes h n =
     (if n < 0 \<or> maxAlloc < n then Inl MakesliceLenOutOfRange
      else Inr (h @ [replicate (nat n) 0],
                \<lparr>arr = length h, lo = 0, len = nat n, cap = nat n\<rparr>))"

text \<open>Go computes the length it asks of \<^verbatim>\<open>make\<close>, \<^verbatim>\<open>n + len(b.buffer)\<close>, in 64 bits: a sum
  above \<open>2^63 - 1\<close> wraps to a negative number. The definitions below keep the sum as it
  is: for operands that are Go ints the wrapped sum is negative exactly when the sum is
  at least \<open>2^63\<close>, and \<^verbatim>\<open>make\<close> refuses both (lemma \<open>make_bytes_wrap64\<close>).\<close>

definition wrap64 :: "int \<Rightarrow> int" where
  "wrap64 x = (x + 2 ^ 63) mod 2 ^ 64 - 2 ^ 63"

text \<open>\<^verbatim>\<open>s[i:]\<close>, \<^verbatim>\<open>s[:j]\<close> and \<^verbatim>\<open>s[i:j]\<close>. The upper bound is checked against the capacity,
  a missing upper bound is the length.\<close>

definition slice_range :: "slice \<Rightarrow> int \<Rightarrow> int \<Rightarrow> panic + slice" where
  "slice_range s i j =
     (if 0 \<le> i \<and> i \<le> j \<and> j \<le> int (cap s)
      then Inr \<lparr>arr = arr s, lo = lo s + nat i, len = nat (j - i), cap = cap s - nat i\<rparr>
      else Inl SliceBoundsOutOfRange)"

definition slice_from :: "slice \<Rightarrow> int \<Rightarrow> panic + slice" where
  "slice_from s i = slice_range s i (int (len s))"

definition slice_to :: "slice \<Rightarrow> int \<Rightarrow> panic + slice" where
  "slice_to s j = slice_range s 0 j"

text \<open>\<^verbatim>\<open>s[i] = v\<close>.\<close>

definition set_index :: "heap \<Rightarrow> slice \<Rightarrow> int \<Rightarrow> byte \<Rightarrow> panic + heap" where
  "set_index h s i v =
     (if 0 \<le> i \<and> i < int (len s) then Inr (store_at h s (nat i) [v])
      else Inl IndexOutOfRange)"

text \<open>\<^verbatim>\<open>copy(dst, src)\<close> between two slices copies \<open>min (len dst) (len src)\<close> bytes and
  is safe when they overlap: the source bytes are read before any is written.\<close>

definition copy_slice :: "heap \<Rightarrow> slice \<Rightarrow> slice \<Rightarrow> heap" where
  "copy_slice h dst src = store_at h dst 0 (take (min (len dst) (len src)) (slice_bytes h src))"

text \<open>\<^verbatim>\<open>copy(dst, p)\<close> where \<open>p\<close> is a string, or a byte slice of the caller given by
  its bytes. \<^verbatim>\<open>CopyBytes\<close> may take it so: it writes nothing to the caller's array before
  this copy, and the copy reads its source before it writes.\<close>

definition copy_in :: "heap \<Rightarrow> slice \<Rightarrow> byte list \<Rightarrow> heap" where
  "copy_in h dst p = store_at h dst 0 (take (len dst) p)"

text \<open>\<^verbatim>\<open>clear(s)\<close> zeroes \<^verbatim>\<open>s[0:len(s)]\<close>.\<close>

definition clear_slice :: "heap \<Rightarrow> slice \<Rightarrow> heap" where
  "clear_slice h s = store_at h s 0 (replicate (len s) 0)"

text \<open>A Go string is its bytes.\<close>

definition string_bytes :: "string \<Rightarrow> byte list" where
  "string_bytes s = map of_char s"

section \<open>encoding/binary\<close>

text \<open>The fixed-width writers of Go's \<^verbatim>\<open>encoding/binary\<close>, which the buffer calls: an
  early bounds check on the last index, then one byte per index. The readers are the
  decoders of the same package, on the bytes read.\<close>

definition le_bytes16 :: "16 word \<Rightarrow> byte list" where
  "le_bytes16 v = [ucast v, ucast (drop_bit 8 v)]"

definition le_bytes32 :: "32 word \<Rightarrow> byte list" where
  "le_bytes32 v = [ucast v, ucast (drop_bit 8 v), ucast (drop_bit 16 v), ucast (drop_bit 24 v)]"

definition le_bytes64 :: "64 word \<Rightarrow> byte list" where
  "le_bytes64 v = [ucast v, ucast (drop_bit 8 v), ucast (drop_bit 16 v), ucast (drop_bit 24 v),
     ucast (drop_bit 32 v), ucast (drop_bit 40 v), ucast (drop_bit 48 v), ucast (drop_bit 56 v)]"

definition be_bytes16 :: "16 word \<Rightarrow> byte list" where
  "be_bytes16 v = [ucast (drop_bit 8 v), ucast v]"

definition be_bytes32 :: "32 word \<Rightarrow> byte list" where
  "be_bytes32 v = [ucast (drop_bit 24 v), ucast (drop_bit 16 v), ucast (drop_bit 8 v), ucast v]"

definition be_bytes64 :: "64 word \<Rightarrow> byte list" where
  "be_bytes64 v = [ucast (drop_bit 56 v), ucast (drop_bit 48 v), ucast (drop_bit 40 v),
     ucast (drop_bit 32 v), ucast (drop_bit 24 v), ucast (drop_bit 16 v), ucast (drop_bit 8 v),
     ucast v]"

definition put_bytes :: "heap \<Rightarrow> slice \<Rightarrow> byte list \<Rightarrow> panic + heap" where
  "put_bytes h s bs =
     (if int (length bs) - 1 < int (len s) then Inr (store_at h s 0 bs)
      else Inl IndexOutOfRange)"

definition PutUint16 :: "bool \<Rightarrow> heap \<Rightarrow> slice \<Rightarrow> 16 word \<Rightarrow> panic + heap" where
  "PutUint16 littleEndian h s v =
     put_bytes h s (if littleEndian then le_bytes16 v else be_bytes16 v)"

definition PutUint32 :: "bool \<Rightarrow> heap \<Rightarrow> slice \<Rightarrow> 32 word \<Rightarrow> panic + heap" where
  "PutUint32 littleEndian h s v =
     put_bytes h s (if littleEndian then le_bytes32 v else be_bytes32 v)"

definition PutUint64 :: "bool \<Rightarrow> heap \<Rightarrow> slice \<Rightarrow> 64 word \<Rightarrow> panic + heap" where
  "PutUint64 littleEndian h s v =
     put_bytes h s (if littleEndian then le_bytes64 v else be_bytes64 v)"

definition le_uint16 :: "byte list \<Rightarrow> 16 word" where
  "le_uint16 b = ucast (b ! 0) OR push_bit 8 (ucast (b ! 1))"

definition be_uint16 :: "byte list \<Rightarrow> 16 word" where
  "be_uint16 b = ucast (b ! 1) OR push_bit 8 (ucast (b ! 0))"

definition le_uint32 :: "byte list \<Rightarrow> 32 word" where
  "le_uint32 b = ucast (b ! 0) OR push_bit 8 (ucast (b ! 1)) OR push_bit 16 (ucast (b ! 2))
     OR push_bit 24 (ucast (b ! 3))"

definition be_uint32 :: "byte list \<Rightarrow> 32 word" where
  "be_uint32 b = ucast (b ! 3) OR push_bit 8 (ucast (b ! 2)) OR push_bit 16 (ucast (b ! 1))
     OR push_bit 24 (ucast (b ! 0))"

definition le_uint64 :: "byte list \<Rightarrow> 64 word" where
  "le_uint64 b = ucast (b ! 0) OR push_bit 8 (ucast (b ! 1)) OR push_bit 16 (ucast (b ! 2))
     OR push_bit 24 (ucast (b ! 3)) OR push_bit 32 (ucast (b ! 4)) OR push_bit 40 (ucast (b ! 5))
     OR push_bit 48 (ucast (b ! 6)) OR push_bit 56 (ucast (b ! 7))"

definition be_uint64 :: "byte list \<Rightarrow> 64 word" where
  "be_uint64 b = ucast (b ! 7) OR push_bit 8 (ucast (b ! 6)) OR push_bit 16 (ucast (b ! 5))
     OR push_bit 24 (ucast (b ! 4)) OR push_bit 32 (ucast (b ! 3)) OR push_bit 40 (ucast (b ! 2))
     OR push_bit 48 (ucast (b ! 1)) OR push_bit 56 (ucast (b ! 0))"

section \<open>The buffer\<close>

record ResizableBuffer =
  buffer :: slice
  offset :: int


definition ensureCapacity ::
  "heap \<Rightarrow> ResizableBuffer \<Rightarrow> int \<Rightarrow> panic + heap \<times> ResizableBuffer" where
  "ensureCapacity h b n =
     (if int (len (buffer b)) - offset b < n then
        and_then (make_bytes h (n + int (len (buffer b))))
          (\<lambda>(h1, buf). Inr (copy_slice h1 buf (buffer b), b\<lparr>buffer := buf\<rparr>))
      else Inr (h, b))"

definition CopyBytes ::
  "heap \<Rightarrow> ResizableBuffer \<Rightarrow> byte list \<Rightarrow> panic + heap \<times> ResizableBuffer" where
  "CopyBytes h b p =
     and_then (ensureCapacity h b (int (length p)))
       (\<lambda>(h1, b1). and_then (slice_from (buffer b1) (offset b1))
          (\<lambda>dst. Inr (copy_in h1 dst p, b1\<lparr>offset := offset b1 + int (length p)\<rparr>)))"

definition CopyString ::
  "heap \<Rightarrow> ResizableBuffer \<Rightarrow> string \<Rightarrow> panic + heap \<times> ResizableBuffer" where
  "CopyString h b p =
     and_then (ensureCapacity h b (int (length p)))
       (\<lambda>(h1, b1). and_then (slice_from (buffer b1) (offset b1))
          (\<lambda>dst. Inr (copy_in h1 dst (string_bytes p),
                       b1\<lparr>offset := offset b1 + int (length p)\<rparr>)))"

definition Byte ::
  "heap \<Rightarrow> ResizableBuffer \<Rightarrow> byte \<Rightarrow> panic + heap \<times> ResizableBuffer" where
  "Byte h b bt =
     and_then (ensureCapacity h b 1)
       (\<lambda>(h1, b1). and_then (set_index h1 (buffer b1) (offset b1) bt)
          (\<lambda>h2. Inr (h2, b1\<lparr>offset := offset b1 + 1\<rparr>)))"

definition CRLF :: "heap \<Rightarrow> ResizableBuffer \<Rightarrow> panic + heap \<times> ResizableBuffer" where
  "CRLF h b =
     and_then (ensureCapacity h b 2)
       (\<lambda>(h1, b1). and_then (set_index h1 (buffer b1) (offset b1) 13)
          (\<lambda>h2. and_then (set_index h2 (buffer b1) (offset b1 + 1) 10)
             (\<lambda>h3. Inr (h3, b1\<lparr>offset := offset b1 + 2\<rparr>))))"

definition Uint16 ::
  "heap \<Rightarrow> ResizableBuffer \<Rightarrow> 16 word \<Rightarrow> bool \<Rightarrow> panic + heap \<times> ResizableBuffer" where
  "Uint16 h b v littleEndian =
     and_then (ensureCapacity h b 2)
       (\<lambda>(h1, b1). and_then (slice_from (buffer b1) (offset b1))
          (\<lambda>dst. and_then (PutUint16 littleEndian h1 dst v)
             (\<lambda>h2. Inr (h2, b1\<lparr>offset := offset b1 + 2\<rparr>))))"

definition Uint32 ::
  "heap \<Rightarrow> ResizableBuffer \<Rightarrow> 32 word \<Rightarrow> bool \<Rightarrow> panic + heap \<times> ResizableBuffer" where
  "Uint32 h b v littleEndian =
     and_then (ensureCapacity h b 4)
       (\<lambda>(h1, b1). and_then (slice_from (buffer b1) (offset b1))
          (\<lambda>dst. and_then (PutUint32 littleEndian h1 dst v)
             (\<lambda>h2. Inr (h2, b1\<lparr>offset := offset b1 + 4\<rparr>))))"

definition Uint64 ::
  "heap \<Rightarrow> ResizableBuffer \<Rightarrow> 64 word \<Rightarrow> bool \<Rightarrow> panic + heap \<times> ResizableBuffer" where
  "Uint64 h b v littleEndian =
     and_then (ensureCapacity h b 8)
       (\<lambda>(h1, b1). and_then (slice_from (buffer b1) (offset b1))
          (\<lambda>dst. and_then (PutUint64 littleEndian h1 dst v)
             (\<lambda>h2. Inr (h2, b1\<lparr>offset := offset b1 + 8\<rparr>))))"

text \<open>The signed writers convert to the unsigned type of the same width, which keeps the
  bit pattern: a signed value is given here as its two's-complement word.\<close>

definition Int16 ::
  "heap \<Rightarrow> ResizableBuffer \<Rightarrow> 16 word \<Rightarrow> bool \<Rightarrow> panic + heap \<times> ResizableBuffer" where
  "Int16 h b v littleEndian = Uint16 h b v littleEndian"

definition Int32 ::
  "heap \<Rightarrow> ResizableBuffer \<Rightarrow> 32 word \<Rightarrow> bool \<Rightarrow> panic + heap \<times> ResizableBuffer" where
  "Int32 h b v littleEndian = Uint32 h b v littleEndian"

definition Int64 ::
  "heap \<Rightarrow> ResizableBuffer \<Rightarrow> 64 word \<Rightarrow> bool \<Rightarrow> panic + heap \<times> ResizableBuffer" where
  "Int64 h b v littleEndian = Uint64 h b v littleEndian"

text \<open>The float writers take the IEEE-754 bit pattern (\<^verbatim>\<open>math.Float32bits\<close>,
  \<^verbatim>\<open>math.Float64bits\<close>) and write it as the unsigned value: a float is given here as
  that bit pattern.\<close>

definition Float32 ::
  "heap \<Rightarrow> ResizableBuffer \<Rightarrow> 32 word \<Rightarrow> bool \<Rightarrow> panic + heap \<times> ResizableBuffer" where
  "Float32 h b v littleEndian = Uint32 h b v littleEndian"

definition Float64 ::
  "heap \<Rightarrow> ResizableBuffer \<Rightarrow> 64 word \<Rightarrow> bool \<Rightarrow> panic + heap \<times> ResizableBuffer" where
  "Float64 h b v littleEndian = Uint64 h b v littleEndian"



text \<open>\<^verbatim>\<open>prependStart\<close> takes the number of bytes and the closure that writes them at the
  start of the buffer it is given.\<close>

definition prependStart ::
  "heap \<Rightarrow> ResizableBuffer \<Rightarrow> int \<Rightarrow> (heap \<Rightarrow> slice \<Rightarrow> panic + heap)
     \<Rightarrow> panic + heap \<times> ResizableBuffer" where
  "prependStart h b n f =
     and_then
       (if int (len (buffer b)) - offset b < n then
          and_then (make_bytes h (n + int (len (buffer b))))
            (\<lambda>(h1, buf). and_then (slice_from buf n)
               (\<lambda>dst. Inr (copy_slice h1 dst (buffer b), b\<lparr>buffer := buf\<rparr>)))
        else
          and_then (slice_from (buffer b) n)
            (\<lambda>dst. Inr (copy_slice h dst (buffer b), b)))
       (\<lambda>(h2, b2). and_then (f h2 (buffer b2))
          (\<lambda>h3. Inr (h3, b2\<lparr>offset := offset b2 + n\<rparr>)))"

text \<open>\<^verbatim>\<open>PrependBytes\<close> is given the caller's slice, not its bytes: the closure
  \<^verbatim>\<open>copy(b, v)\<close> reads \<open>v\<close> after \<^verbatim>\<open>prependStart\<close> has moved the storage, so a slice that
  shares the buffer's array is read as the move left it.\<close>

definition PrependBytes ::
  "heap \<Rightarrow> ResizableBuffer \<Rightarrow> slice \<Rightarrow> panic + heap \<times> ResizableBuffer" where
  "PrependBytes h b v = prependStart h b (int (len v)) (\<lambda>h1 s. Inr (copy_slice h1 s v))"

definition PrependByte ::
  "heap \<Rightarrow> ResizableBuffer \<Rightarrow> byte \<Rightarrow> panic + heap \<times> ResizableBuffer" where
  "PrependByte h b v = prependStart h b 1 (\<lambda>h1 s. set_index h1 s 0 v)"

definition PrependString ::
  "heap \<Rightarrow> ResizableBuffer \<Rightarrow> string \<Rightarrow> panic + heap \<times> ResizableBuffer" where
  "PrependString h b v =
     prependStart h b (int (length v)) (\<lambda>h1 s. Inr (copy_in h1 s (string_bytes v)))"

definition PrependUint16 ::
  "heap \<Rightarrow> ResizableBuffer \<Rightarrow> 16 word \<Rightarrow> bool \<Rightarrow> panic + heap \<times> ResizableBuffer" where
  "PrependUint16 h b v littleEndian =
     prependStart h b 2 (\<lambda>h1 s. PutUint16 littleEndian h1 s v)"

definition PrependUint32 ::
  "heap \<Rightarrow> ResizableBuffer \<Rightarrow> 32 word \<Rightarrow> bool \<Rightarrow> panic + heap \<times> ResizableBuffer" where
  "PrependUint32 h b v littleEndian =
     prependStart h b 4 (\<lambda>h1 s. PutUint32 littleEndian h1 s v)"

definition PrependUint64 ::
  "heap \<Rightarrow> ResizableBuffer \<Rightarrow> 64 word \<Rightarrow> bool \<Rightarrow> panic + heap \<times> ResizableBuffer" where
  "PrependUint64 h b v littleEndian =
     prependStart h b 8 (\<lambda>h1 s. PutUint64 littleEndian h1 s v)"

definition PrependInt16 ::
  "heap \<Rightarrow> ResizableBuffer \<Rightarrow> 16 word \<Rightarrow> bool \<Rightarrow> panic + heap \<times> ResizableBuffer" where
  "PrependInt16 h b v littleEndian = PrependUint16 h b v littleEndian"

definition PrependInt32 ::
  "heap \<Rightarrow> ResizableBuffer \<Rightarrow> 32 word \<Rightarrow> bool \<Rightarrow> panic + heap \<times> ResizableBuffer" where
  "PrependInt32 h b v littleEndian = PrependUint32 h b v littleEndian"

definition PrependInt64 ::
  "heap \<Rightarrow> ResizableBuffer \<Rightarrow> 64 word \<Rightarrow> bool \<Rightarrow> panic + heap \<times> ResizableBuffer" where
  "PrependInt64 h b v littleEndian = PrependUint64 h b v littleEndian"

definition PrependFloat32 ::
  "heap \<Rightarrow> ResizableBuffer \<Rightarrow> 32 word \<Rightarrow> bool \<Rightarrow> panic + heap \<times> ResizableBuffer" where
  "PrependFloat32 h b v littleEndian = PrependUint32 h b v littleEndian"

definition PrependFloat64 ::
  "heap \<Rightarrow> ResizableBuffer \<Rightarrow> 64 word \<Rightarrow> bool \<Rightarrow> panic + heap \<times> ResizableBuffer" where
  "PrependFloat64 h b v littleEndian = PrependUint64 h b v littleEndian"

definition Reset :: "heap \<Rightarrow> ResizableBuffer \<Rightarrow> bool \<Rightarrow> panic + heap \<times> ResizableBuffer" where
  "Reset h b zeroOut =
     and_then
       (if zeroOut then and_then (slice_to (buffer b) (offset b)) (\<lambda>s. Inr (clear_slice h s))
        else Inr h)
       (\<lambda>h1. Inr (h1, b\<lparr>offset := 0\<rparr>))"

text \<open>An \<^verbatim>\<open>io.Reader\<close> is given the store and the slice to fill; it returns the store it
  leaves, the count \<open>n\<close> it reports and the error it reports, if any. The two readers of
  the tests are \<open>stringReader\<close> and \<open>errorfulReader\<close>.\<close>

type_synonym 'e reader = "heap \<Rightarrow> slice \<Rightarrow> heap \<times> int \<times> 'e option"

definition stringReader :: "string \<Rightarrow> 'e reader" where
  "stringReader s h p = (copy_in h p (string_bytes s), int (min (len p) (length s)), None)"

definition errorfulReader :: "'e \<Rightarrow> 'e reader" where
  "errorfulReader err h p = (h, 0, Some err)"

text \<open>A source that copies the bytes \<open>bs\<close> into the slice and reports the count and the
  error it is told to report, whatever the slice.\<close>

definition scriptedReader :: "byte list \<Rightarrow> int \<Rightarrow> 'e option \<Rightarrow> 'e reader" where
  "scriptedReader bs n err h p = (copy_in h p bs, n, err)"


text \<open>\<^verbatim>\<open>ReadInto\<close> in two parts, cut at the call of the reader: \<open>ReadInto_request\<close> is
  the code before the call and gives the slice the reader is asked to fill.\<close>

definition ReadInto_request ::
  "heap \<Rightarrow> ResizableBuffer \<Rightarrow> int \<Rightarrow> panic + heap \<times> ResizableBuffer \<times> slice" where
  "ReadInto_request h b maxSize =
     and_then
       (if maxSize > 0 then
          and_then (ensureCapacity h b maxSize) (\<lambda>(h1, b1). Inr (h1, b1, maxSize))
        else Inr (h, b, int (len (buffer b)) - offset b))
       (\<lambda>(h1, b1, m). and_then (slice_range (buffer b1) (offset b1) (offset b1 + m))
          (\<lambda>p. Inr (h1, b1, p)))"

definition ReadInto ::
  "heap \<Rightarrow> ResizableBuffer \<Rightarrow> 'e reader \<Rightarrow> int
     \<Rightarrow> panic + heap \<times> ResizableBuffer \<times> slice \<times> 'e option" where
  "ReadInto h b r maxSize =
     and_then (ReadInto_request h b maxSize)
       (\<lambda>(h1, b1, p). case r h1 p of (h2, n, err) \<Rightarrow>
          and_then (slice_range (buffer b1) (offset b1) (offset b1 + n))
            (\<lambda>chunk. Inr (h2, b1\<lparr>offset := offset b1 + n\<rparr>, chunk, err)))"

text \<open>\<^verbatim>\<open>SubBuffer\<close> returns the parent and the new buffer, a view of the parent's array.\<close>

definition SubBuffer ::
  "heap \<Rightarrow> ResizableBuffer \<Rightarrow> int \<Rightarrow> panic + heap \<times> ResizableBuffer \<times> ResizableBuffer" where
  "SubBuffer h b length0 =
     (let length1 = (if length0 < 0 then int (len (buffer b)) - offset b else length0) in
      and_then (ensureCapacity h b length1)
        (\<lambda>(h1, b1). and_then (slice_range (buffer b1) (offset b1) (offset b1 + length1))
           (\<lambda>s. Inr (h1, b1\<lparr>offset := offset b1 + length1\<rparr>, \<lparr>buffer = s, offset = 0\<rparr>))))"

section \<open>The state invariant\<close>

text \<open>The buffer's slice lies in the store and the offset is between zero and its
  length.\<close>

definition buf_inv :: "heap \<Rightarrow> ResizableBuffer \<Rightarrow> bool" where
  "buf_inv h b \<longleftrightarrow> slice_ok h (buffer b) \<and> 0 \<le> offset b \<and> offset b \<le> int (len (buffer b))"

text \<open>The storage \<^verbatim>\<open>b.buffer[0:C]\<close> and the logical content \<^verbatim>\<open>b.buffer[0:offset]\<close>.\<close>

definition storage :: "heap \<Rightarrow> ResizableBuffer \<Rightarrow> byte list" where
  "storage h b = slice_bytes h (buffer b)"

definition content :: "heap \<Rightarrow> ResizableBuffer \<Rightarrow> byte list" where
  "content h b = take (nat (offset b)) (storage h b)"

section \<open>The two families of writes\<close>

text \<open>A call of the append family, the bytes it is to write, and the method it runs.\<close>

datatype append_call =
    ACopyBytes "byte list"
  | ACopyString string
  | AByte byte
  | ACRLF
  | AUint16 "16 word" bool
  | AUint32 "32 word" bool
  | AUint64 "64 word" bool
  | AInt16 "16 word" bool
  | AInt32 "32 word" bool
  | AInt64 "64 word" bool
  | AFloat32 "32 word" bool
  | AFloat64 "64 word" bool

fun append_bytes :: "append_call \<Rightarrow> byte list" where
  "append_bytes (ACopyBytes p) = p"
| "append_bytes (ACopyString p) = string_bytes p"
| "append_bytes (AByte bt) = [bt]"
| "append_bytes ACRLF = [13, 10]"
| "append_bytes (AUint16 v le) = (if le then le_bytes16 v else be_bytes16 v)"
| "append_bytes (AUint32 v le) = (if le then le_bytes32 v else be_bytes32 v)"
| "append_bytes (AUint64 v le) = (if le then le_bytes64 v else be_bytes64 v)"
| "append_bytes (AInt16 v le) = (if le then le_bytes16 v else be_bytes16 v)"
| "append_bytes (AInt32 v le) = (if le then le_bytes32 v else be_bytes32 v)"
| "append_bytes (AInt64 v le) = (if le then le_bytes64 v else be_bytes64 v)"
| "append_bytes (AFloat32 v le) = (if le then le_bytes32 v else be_bytes32 v)"
| "append_bytes (AFloat64 v le) = (if le then le_bytes64 v else be_bytes64 v)"

fun run_append ::
  "heap \<Rightarrow> ResizableBuffer \<Rightarrow> append_call \<Rightarrow> panic + heap \<times> ResizableBuffer" where
  "run_append h b (ACopyBytes p) = CopyBytes h b p"
| "run_append h b (ACopyString p) = CopyString h b p"
| "run_append h b (AByte bt) = Byte h b bt"
| "run_append h b ACRLF = CRLF h b"
| "run_append h b (AUint16 v le) = Uint16 h b v le"
| "run_append h b (AUint32 v le) = Uint32 h b v le"
| "run_append h b (AUint64 v le) = Uint64 h b v le"
| "run_append h b (AInt16 v le) = Int16 h b v le"
| "run_append h b (AInt32 v le) = Int32 h b v le"
| "run_append h b (AInt64 v le) = Int64 h b v le"
| "run_append h b (AFloat32 v le) = Float32 h b v le"
| "run_append h b (AFloat64 v le) = Float64 h b v le"

text \<open>The same for the prepend family. \<open>PBytes p\<close> stands for \<^verbatim>\<open>PrependBytes\<close> of a slice
  with the bytes \<open>p\<close> that lies in another array than the buffer's (lemma
  \<open>PrependBytes_apart\<close>).\<close>

datatype prepend_call =
    PBytes "byte list"
  | PByte byte
  | PString string
  | PUint16 "16 word" bool
  | PUint32 "32 word" bool
  | PUint64 "64 word" bool
  | PInt16 "16 word" bool
  | PInt32 "32 word" bool
  | PInt64 "64 word" bool
  | PFloat32 "32 word" bool
  | PFloat64 "64 word" bool

fun prepend_bytes :: "prepend_call \<Rightarrow> byte list" where
  "prepend_bytes (PBytes v) = v"
| "prepend_bytes (PByte v) = [v]"
| "prepend_bytes (PString v) = string_bytes v"
| "prepend_bytes (PUint16 v le) = (if le then le_bytes16 v else be_bytes16 v)"
| "prepend_bytes (PUint32 v le) = (if le then le_bytes32 v else be_bytes32 v)"
| "prepend_bytes (PUint64 v le) = (if le then le_bytes64 v else be_bytes64 v)"
| "prepend_bytes (PInt16 v le) = (if le then le_bytes16 v else be_bytes16 v)"
| "prepend_bytes (PInt32 v le) = (if le then le_bytes32 v else be_bytes32 v)"
| "prepend_bytes (PInt64 v le) = (if le then le_bytes64 v else be_bytes64 v)"
| "prepend_bytes (PFloat32 v le) = (if le then le_bytes32 v else be_bytes32 v)"
| "prepend_bytes (PFloat64 v le) = (if le then le_bytes64 v else be_bytes64 v)"

fun run_prepend ::
  "heap \<Rightarrow> ResizableBuffer \<Rightarrow> prepend_call \<Rightarrow> panic + heap \<times> ResizableBuffer" where
  "run_prepend h b (PBytes v) =
     prependStart h b (int (length v)) (\<lambda>h1 s. Inr (copy_in h1 s v))"
| "run_prepend h b (PByte v) = PrependByte h b v"
| "run_prepend h b (PString v) = PrependString h b v"
| "run_prepend h b (PUint16 v le) = PrependUint16 h b v le"
| "run_prepend h b (PUint32 v le) = PrependUint32 h b v le"
| "run_prepend h b (PUint64 v le) = PrependUint64 h b v le"
| "run_prepend h b (PInt16 v le) = PrependInt16 h b v le"
| "run_prepend h b (PInt32 v le) = PrependInt32 h b v le"
| "run_prepend h b (PInt64 v le) = PrependInt64 h b v le"
| "run_prepend h b (PFloat32 v le) = PrependFloat32 h b v le"
| "run_prepend h b (PFloat64 v le) = PrependFloat64 h b v le"

section \<open>Lemmas on slices and the store\<close>

lemma length_slice_bytes: "slice_ok h s \<Longrightarrow> length (slice_bytes h s) = len s"
  by (auto simp: slice_ok_def slice_bytes_def)

lemma length_store_at: "length (store_at h s k bs) = length h"
  by (simp add: store_at_def)

lemma store_at_other: "a \<noteq> arr s \<Longrightarrow> store_at h s k bs ! a = h ! a"
  by (simp add: store_at_def)

lemma store_at_same:
  "arr s < length h \<Longrightarrow>
   store_at h s k bs ! arr s
     = take (lo s + k) (h ! arr s) @ bs @ drop (lo s + k + length bs) (h ! arr s)"
  by (simp add: store_at_def)

lemma length_store_at_same:
  "arr s < length h \<Longrightarrow> lo s + k + length bs \<le> length (h ! arr s) \<Longrightarrow>
   length (store_at h s k bs ! arr s) = length (h ! arr s)"
  by (simp add: store_at_same)

lemma slice_ok_store_at:
  assumes "slice_ok h t" "arr s < length h" "lo s + k + length bs \<le> length (h ! arr s)"
  shows "slice_ok (store_at h s k bs) t"
proof (cases "arr t = arr s")
  case True
  with assms show ?thesis
    by (simp add: slice_ok_def length_store_at length_store_at_same)
next
  case False
  with assms show ?thesis
    by (simp add: slice_ok_def length_store_at store_at_other)
qed

lemma slice_bytes_store_at:
  assumes "slice_ok h s" "k + length bs \<le> len s"
  shows "slice_bytes (store_at h s k bs) s
           = take k (slice_bytes h s) @ bs @ drop (k + length bs) (slice_bytes h s)"
proof -
  let ?a = "h ! arr s"
  from assms have a: "arr s < length h" "lo s + len s \<le> length ?a"
    by (auto simp: slice_ok_def)
  define pre where "pre = take (lo s) ?a"
  define mid where "mid = slice_bytes h s"
  define post where "post = drop (lo s + len s) ?a"
  have split: "?a = pre @ mid @ post"
    unfolding pre_def mid_def post_def slice_bytes_def
    by (metis add.commute append_take_drop_id drop_drop)
  have lens: "length pre = lo s" "length mid = len s"
    using a by (simp_all add: pre_def mid_def slice_bytes_def)
  have "store_at h s k bs ! arr s
          = take (length pre + k) (pre @ mid @ post) @ bs
              @ drop (length pre + k + length bs) (pre @ mid @ post)"
    using a by (simp add: store_at_same split [symmetric] lens)
  also have "\<dots> = pre @ (take k mid @ bs @ drop (k + length bs) mid) @ post"
    using assms(2) lens by simp
  finally have "slice_bytes (store_at h s k bs) s
          = take (len s) (drop (length pre)
              (pre @ (take k mid @ bs @ drop (k + length bs) mid) @ post))"
    by (simp add: slice_bytes_def lens)
  also have "\<dots> = take k mid @ bs @ drop (k + length bs) mid"
    using assms(2) lens by simp
  finally show ?thesis by (simp add: mid_def)
qed


lemma storage_length: "buf_inv h b \<Longrightarrow> length (storage h b) = len (buffer b)"
  by (simp add: buf_inv_def storage_def length_slice_bytes)

lemma slice_bytes_append_heap:
  "arr s < length h \<Longrightarrow> slice_bytes (h @ hs) s = slice_bytes h s"
  by (simp add: slice_bytes_def nth_append)

lemma slice_ok_append_heap: "slice_ok h s \<Longrightarrow> slice_ok (h @ hs) s"
  by (simp add: slice_ok_def nth_append)

lemma ensureCapacity_keep:
  "n \<le> int (len (buffer b)) - offset b \<Longrightarrow> ensureCapacity h b n = Inr (h, b)"
  by (simp add: ensureCapacity_def)

text \<open>Wrapping the sum as Go does changes nothing: \<^verbatim>\<open>make\<close> answers the wrapped sum of
  two Go ints, the second a length, as it answers the sum.\<close>

lemma wrap64_in_range: "- (2 ^ 63) \<le> x \<Longrightarrow> x < 2 ^ 63 \<Longrightarrow> wrap64 x = x"
  by (simp add: wrap64_def mod_pos_pos_trivial)

lemma wrap64_above:
  assumes "2 ^ 63 \<le> x" "x < 2 ^ 64"
  shows "wrap64 x = x - 2 ^ 64"
proof -
  have "(x + 2 ^ 63) mod 2 ^ 64 = x + 2 ^ 63 - 2 ^ 64"
    using assms by (intro int_mod_pos_eq [where q = 1]) simp_all
  then show ?thesis by (simp add: wrap64_def)
qed

lemma make_bytes_wrap64:
  assumes "- (2 ^ 63) \<le> n" "n < 2 ^ 63" "0 \<le> c" "c < 2 ^ 63"
  shows "make_bytes h (wrap64 (n + c)) = make_bytes h (n + c)"
proof (cases "n + c < 2 ^ 63")
  case True
  with assms have "wrap64 (n + c) = n + c"
    by (intro wrap64_in_range) simp_all
  then show ?thesis by simp
next
  case False
  with assms have "wrap64 (n + c) = n + c - 2 ^ 64"
    by (intro wrap64_above) simp_all
  with assms have "wrap64 (n + c) < 0" by simp
  moreover have "maxAlloc < n + c"
    using False by (simp add: maxAlloc_def)
  ultimately show ?thesis by (simp add: make_bytes_def)
qed

lemma make_bytes_served:
  assumes "0 \<le> n" "n \<le> maxAlloc"
  shows "make_bytes h n
           = Inr (h @ [replicate (nat n) 0], \<lparr>arr = length h, lo = 0, len = nat n, cap = nat n\<rparr>)"
  using assms by (simp add: make_bytes_def)

lemma ensureCapacity_panic:
  assumes "int (len (buffer b)) - offset b < n" "maxAlloc < n + int (len (buffer b))"
  shows "ensureCapacity h b n = Inl MakesliceLenOutOfRange"
  using assms by (simp add: ensureCapacity_def make_bytes_def and_then_def)

lemma ensureCapacity_grow:
  assumes "buf_inv h b" "int (len (buffer b)) - offset b < n"
    and "n + int (len (buffer b)) \<le> maxAlloc"
  shows "ensureCapacity h b n
           = Inr (h @ [storage h b @ replicate (nat n) 0],
                  b\<lparr>buffer := \<lparr>arr = length h, lo = 0, len = nat n + len (buffer b),
                                cap = nat n + len (buffer b)\<rparr>\<rparr>)"
proof -
  from assms have n: "0 < n" and ok: "slice_ok h (buffer b)"
    by (auto simp: buf_inv_def)
  have a: "arr (buffer b) < length h" using ok by (simp add: slice_ok_def)
  have l: "length (storage h b) = len (buffer b)" using assms(1) by (rule storage_length)
  have eq: "nat (n + int (len (buffer b))) = nat n + len (buffer b)" using n by simp
  have sb: "slice_bytes (h @ hs) (buffer b) = storage h b" for hs
    using a by (simp add: storage_def slice_bytes_append_heap)
  show ?thesis
    using n l assms(2,3)
    by (simp add: ensureCapacity_def make_bytes_def and_then_def copy_slice_def store_at_def
        sb eq)
qed


lemma store_at_frame:
  assumes "arr s < length h" "lo s + k + length bs \<le> length (h ! arr s)"
    and "a \<noteq> arr s \<or> i < lo s + k \<or> lo s + k + length bs \<le> i"
  shows "store_at h s k bs ! a ! i = h ! a ! i"
proof (cases "a = arr s")
  case False
  then show ?thesis by (simp add: store_at_other)
next
  case True
  let ?a = "h ! arr s"
  have lt: "length (take (lo s + k) ?a) = lo s + k"
    using assms(2) by simp
  from True assms(3) consider "i < lo s + k" | "lo s + k + length bs \<le> i" by blast
  then show ?thesis
  proof cases
    case 1
    with assms(1) True lt show ?thesis
      by (simp add: store_at_same nth_append del: length_take)
  next
    case 2
    then have n1: "\<not> i < lo s + k" and n2: "\<not> i - (lo s + k) < length bs"
      by arith+
    have "(take (lo s + k) ?a @ bs @ drop (lo s + k + length bs) ?a) ! i
                 = drop (lo s + k + length bs) ?a ! (i - (lo s + k) - length bs)"
      using lt n1 n2 by (simp add: nth_append del: length_take)
    also have "\<dots> = ?a ! i"
      using 2 assms(2) by simp
    finally show ?thesis using assms(1) True by (simp add: store_at_same)
  qed
qed

section \<open>Reset\<close>

lemma slice_to_inv:
  "buf_inv h b \<Longrightarrow>
   slice_to (buffer b) (offset b)
     = Inr \<lparr>arr = arr (buffer b), lo = lo (buffer b), len = nat (offset b), cap = cap (buffer b)\<rparr>"
  by (auto simp: buf_inv_def slice_ok_def slice_to_def slice_range_def)

text \<open>
  Claim C4. In a state that satisfies the invariant, \<^verbatim>\<open>Reset(true)\<close> zeroes exactly the
  bytes \<^verbatim>\<open>storage[0:cursor]\<close> and leaves every other byte of the store as it is (the
  storage from the cursor on, and every byte of the heap outside the written prefix);
  \<^verbatim>\<open>Reset(false)\<close> leaves the whole store as it is. In both cases the cursor becomes 0 and
  the buffer keeps its slice: the same array, the same length and capacity, no new
  allocation.
\<close>

theorem Reset_zeroes_written_prefix_only:
  assumes "buf_inv h b"
  shows "\<exists>h' b'. Reset h b zeroOut = Inr (h', b')
           \<and> offset b' = 0 \<and> buffer b' = buffer b \<and> length h' = length h
           \<and> length (storage h' b') = len (buffer b)
           \<and> (if zeroOut
               then storage h' b'
                      = replicate (nat (offset b)) 0 @ drop (nat (offset b)) (storage h b)
                 \<and> (\<forall>a i. a \<noteq> arr (buffer b) \<or> i < lo (buffer b)
                        \<or> lo (buffer b) + nat (offset b) \<le> i \<longrightarrow> h' ! a ! i = h ! a ! i)
               else h' = h)"
proof (cases zeroOut)
  case False
  with assms show ?thesis
    by (simp add: Reset_def and_then_def storage_def buf_inv_def length_slice_bytes)
next
  case True
  let ?s = "buffer b" and ?c = "nat (offset b)"
  let ?h = "store_at h ?s 0 (replicate ?c 0)"
  from assms have ok: "slice_ok h ?s" and c: "?c \<le> len ?s"
    by (auto simp: buf_inv_def)
  then have a: "arr ?s < length h" and fit: "lo ?s + 0 + length (replicate ?c (0::byte)) \<le> length (h ! arr ?s)"
    by (auto simp: slice_ok_def)
  have run: "Reset h b zeroOut = Inr (?h, b\<lparr>offset := 0\<rparr>)"
    using True assms
    by (simp add: Reset_def and_then_def slice_to_inv clear_slice_def store_at_def)
  have st: "storage ?h (b\<lparr>offset := 0\<rparr>) = replicate ?c 0 @ drop ?c (storage h b)"
    using slice_bytes_store_at [OF ok, of 0 "replicate ?c 0"] c
    by (simp add: storage_def)
  have fr: "\<forall>a i. a \<noteq> arr ?s \<or> i < lo ?s \<or> lo ?s + ?c \<le> i \<longrightarrow> ?h ! a ! i = h ! a ! i"
    using store_at_frame [OF a fit] by simp
  have ln: "length (storage ?h (b\<lparr>offset := 0\<rparr>)) = len ?s"
    using slice_ok_store_at [OF ok a fit] by (simp add: storage_def length_slice_bytes)
  show ?thesis
    using True run st fr ln by (simp add: length_store_at)
qed

theorem Reset_zeroes_written_prefix_only_witness:
  "buf_inv [[1, 2, 3, 4]] \<lparr>buffer = \<lparr>arr = 0, lo = 0, len = 4, cap = 4\<rparr>, offset = 2\<rparr>
   \<and> Reset [[1, 2, 3, 4]] \<lparr>buffer = \<lparr>arr = 0, lo = 0, len = 4, cap = 4\<rparr>, offset = 2\<rparr> True
       = Inr ([[0, 0, 3, 4]], \<lparr>buffer = \<lparr>arr = 0, lo = 0, len = 4, cap = 4\<rparr>, offset = 0\<rparr>)
   \<and> storage [[0, 0, 3, 4]] \<lparr>buffer = \<lparr>arr = 0, lo = 0, len = 4, cap = 4\<rparr>, offset = 0\<rparr>
       = replicate 2 0 @ drop 2 (storage [[1, 2, 3, 4]]
           \<lparr>buffer = \<lparr>arr = 0, lo = 0, len = 4, cap = 4\<rparr>, offset = 2\<rparr>)"
proof -
  let ?h = "[[1, 2, 3, 4 :: byte]]"
  let ?b = "\<lparr>buffer = \<lparr>arr = 0, lo = 0, len = 4, cap = 4\<rparr>, offset = 2\<rparr>"
  have inv: "buf_inv ?h ?b"
    by (simp add: buf_inv_def slice_ok_def)
  have run: "Reset ?h ?b True
               = Inr ([[0, 0, 3, 4]], \<lparr>buffer = \<lparr>arr = 0, lo = 0, len = 4, cap = 4\<rparr>, offset = 0\<rparr>)"
    by (simp add: Reset_def and_then_def slice_to_def slice_range_def clear_slice_def
        store_at_def numeral_2_eq_2)
  from Reset_zeroes_written_prefix_only [OF inv, of True] run
  have "storage [[0, 0, 3, 4]] \<lparr>buffer = \<lparr>arr = 0, lo = 0, len = 4, cap = 4\<rparr>, offset = 0\<rparr>
          = replicate 2 0 @ drop 2 (storage ?h ?b)"
    by simp
  with inv run show ?thesis by simp
qed

section \<open>Writes that meet\<close>

lemma store_at_slice_range:
  "slice_range s i j = Inr d \<Longrightarrow> store_at h d k bs = store_at h s (nat i + k) bs"
  by (auto simp: slice_range_def store_at_def add.assoc split: if_splits)

lemma store_at_Nil:
  assumes "arr s < length h" "lo s + k \<le> length (h ! arr s)"
  shows "store_at h s k [] = h"
  using assms by (simp add: store_at_def)

lemma split3:
  assumes "p + n + m \<le> length (a :: 'a list)"
  obtains pre o1 o2 post
  where "a = pre @ o1 @ o2 @ post" "length pre = p" "length o1 = n" "length o2 = m"
proof
  show "a = take p a @ take n (drop p a) @ take m (drop (p + n) a) @ drop (p + n + m) a"
    by (metis add.commute append_take_drop_id drop_drop)
  show "length (take p a) = p" "length (take n (drop p a)) = n"
    "length (take m (drop (p + n) a)) = m"
    using assms by simp_all
qed

lemma splice_twice_aux:
  assumes "a = pre @ o1 @ o2 @ post" "length pre = p"
    "length o1 = length xs" "length o2 = length ys"
  shows "take (p + length xs) (take p a @ xs @ drop (p + length xs) a) @ ys
           @ drop (p + length xs + length ys) (take p a @ xs @ drop (p + length xs) a)
         = take p a @ (xs @ ys) @ drop (p + length (xs @ ys)) a"
  unfolding assms(1) assms(2) [symmetric] using assms(3,4) by simp

lemma splice_before_aux:
  assumes "a = pre @ o1 @ o2 @ post" "length pre = p"
    "length o1 = length xs" "length o2 = length ys"
  shows "take p (take (p + length xs) a @ ys @ drop (p + length xs + length ys) a) @ xs
           @ drop (p + length xs)
               (take (p + length xs) a @ ys @ drop (p + length xs + length ys) a)
         = take p a @ (xs @ ys) @ drop (p + length (xs @ ys)) a"
  unfolding assms(1) assms(2) [symmetric] using assms(3,4) by simp

lemma store_at_twice:
  assumes "arr s < length h" "lo s + k + length xs + length ys \<le> length (h ! arr s)"
  shows "store_at (store_at h s k xs) s (k + length xs) ys = store_at h s k (xs @ ys)"
proof -
  define p where "p = lo s + k"
  have e: "lo s + (k + length xs) = p + length xs" "lo s + k = p"
    by (simp_all add: p_def)
  from assms(2) obtain pre o1 o2 post
    where "h ! arr s = pre @ o1 @ o2 @ post" "length pre = p"
      "length o1 = length xs" "length o2 = length ys"
    unfolding e by (rule split3)
  from splice_twice_aux [OF this] assms(1)
  show ?thesis
    unfolding store_at_def e by simp
qed

lemma store_at_before:
  assumes "arr s < length h" "lo s + k + length xs + length ys \<le> length (h ! arr s)"
  shows "store_at (store_at h s (k + length xs) ys) s k xs = store_at h s k (xs @ ys)"
proof -
  define p where "p = lo s + k"
  have e: "lo s + (k + length xs) = p + length xs" "lo s + k = p"
    by (simp_all add: p_def)
  from assms(2) obtain pre o1 o2 post
    where "h ! arr s = pre @ o1 @ o2 @ post" "length pre = p"
      "length o1 = length xs" "length o2 = length ys"
    unfolding e by (rule split3)
  from splice_before_aux [OF this] assms(1)
  show ?thesis
    unfolding store_at_def e by simp
qed

lemma store_at_same_bytes:
  assumes "slice_ok h s" "n \<le> len s"
  shows "store_at h s 0 (take n (slice_bytes h s)) = h"
proof -
  let ?a = "h ! arr s"
  from assms have a: "arr s < length h" "lo s + len s \<le> length ?a"
    by (auto simp: slice_ok_def)
  have "take n (slice_bytes h s) = take n (drop (lo s) ?a)"
    using assms(2) by (simp add: slice_bytes_def min_def)
  moreover have "length (take n (drop (lo s) ?a)) = n"
    using a assms(2) by simp
  moreover have "take (lo s) ?a @ take n (drop (lo s) ?a) @ drop (lo s + n) ?a = ?a"
    by (metis add.commute append_take_drop_id drop_drop)
  ultimately show ?thesis
    using a by (simp add: store_at_def del: length_take)
qed

section \<open>Ensuring capacity\<close>

lemma ensureCapacity_post:
  assumes "buf_inv h b" "0 \<le> n" "ensureCapacity h b n = Inr (h1, b1)"
  shows "buf_inv h1 b1" "offset b1 = offset b" "offset b + n \<le> int (len (buffer b1))"
proof -
  have "buf_inv h1 b1 \<and> offset b1 = offset b \<and> offset b + n \<le> int (len (buffer b1))"
  proof (cases "n \<le> int (len (buffer b)) - offset b")
    case True
    with assms show ?thesis by (simp add: ensureCapacity_keep)
  next
    case False
    have "n + int (len (buffer b)) \<le> maxAlloc"
    proof (rule ccontr)
      assume "\<not> n + int (len (buffer b)) \<le> maxAlloc"
      with False have "ensureCapacity h b n = Inl MakesliceLenOutOfRange"
        by (intro ensureCapacity_panic) simp_all
      with assms(3) show False by simp
    qed
    with False have "ensureCapacity h b n
        = Inr (h @ [storage h b @ replicate (nat n) 0],
               b\<lparr>buffer := \<lparr>arr = length h, lo = 0, len = nat n + len (buffer b),
                             cap = nat n + len (buffer b)\<rparr>\<rparr>)"
      using assms(1) by (simp add: ensureCapacity_grow)
    with assms(3) have h1: "h1 = h @ [storage h b @ replicate (nat n) 0]"
      and b1: "b1 = b\<lparr>buffer := \<lparr>arr = length h, lo = 0, len = nat n + len (buffer b),
                             cap = nat n + len (buffer b)\<rparr>\<rparr>"
      by simp_all
    have "length (storage h b) = len (buffer b)" using assms(1) by (rule storage_length)
    then show ?thesis
      using assms(1,2) unfolding h1 b1 by (simp add: buf_inv_def slice_ok_def)
  qed
  then show "buf_inv h1 b1" "offset b1 = offset b" "offset b + n \<le> int (len (buffer b1))"
    by simp_all
qed

lemma ensureCapacity_total:
  assumes "buf_inv h b" "0 \<le> n"
    and "n \<le> int (len (buffer b)) - offset b \<or> n + int (len (buffer b)) \<le> maxAlloc"
  shows "\<exists>h1 b1. ensureCapacity h b n = Inr (h1, b1)"
proof (cases "n \<le> int (len (buffer b)) - offset b")
  case True
  then show ?thesis by (simp add: ensureCapacity_keep)
next
  case False
  with assms(1,3) show ?thesis by (simp add: ensureCapacity_grow)
qed

text \<open>The outcome of \<^verbatim>\<open>ensureCapacity\<close> in full: it returns when the bytes fit or
  \<^verbatim>\<open>make\<close> serves the new length, and panics in \<^verbatim>\<open>make\<close> otherwise.\<close>

lemma ensureCapacity_refused:
  assumes "\<not> (n \<le> int (len (buffer b)) - offset b \<or> n + int (len (buffer b)) \<le> maxAlloc)"
  shows "ensureCapacity h b n = Inl MakesliceLenOutOfRange"
  using assms by (intro ensureCapacity_panic) simp_all


lemma tail_slice:
  assumes "buf_inv h b" "offset b + n \<le> int (len (buffer b))" "0 \<le> n"
  shows "slice_from (buffer b) (offset b)
           = Inr \<lparr>arr = arr (buffer b), lo = lo (buffer b) + nat (offset b),
                  len = len (buffer b) - nat (offset b), cap = cap (buffer b) - nat (offset b)\<rparr>"
    and "nat (offset b) + nat n \<le> len (buffer b)"
    and "arr (buffer b) < length h"
    and "lo (buffer b) + nat (offset b) + nat n \<le> length (h ! arr (buffer b))"
proof -
  from assms have c: "0 \<le> offset b" "offset b \<le> int (len (buffer b))"
    and ok: "slice_ok h (buffer b)"
    by (simp_all add: buf_inv_def)
  show "slice_from (buffer b) (offset b)
           = Inr \<lparr>arr = arr (buffer b), lo = lo (buffer b) + nat (offset b),
                  len = len (buffer b) - nat (offset b), cap = cap (buffer b) - nat (offset b)\<rparr>"
    using c ok by (simp add: slice_from_def slice_range_def slice_ok_def nat_diff_distrib)
  show n: "nat (offset b) + nat n \<le> len (buffer b)"
    using assms(2,3) c by linarith
  show "arr (buffer b) < length h" using ok by (simp add: slice_ok_def)
  show "lo (buffer b) + nat (offset b) + nat n \<le> length (h ! arr (buffer b))"
    using ok n by (simp add: slice_ok_def)
qed

lemma length_le_bytes [simp]:
  "length (le_bytes16 v) = 2" "length (be_bytes16 v) = 2"
  "length (le_bytes32 w) = 4" "length (be_bytes32 w) = 4"
  "length (le_bytes64 x) = 8" "length (be_bytes64 x) = 8"
  by (simp_all add: le_bytes16_def be_bytes16_def le_bytes32_def be_bytes32_def
      le_bytes64_def be_bytes64_def)

lemma length_string_bytes [simp]: "length (string_bytes p) = length p"
  by (simp add: string_bytes_def)

section \<open>The append family as one tail write\<close>

text \<open>Writing at the tail of a buffer with room for the bytes.\<close>

lemma copy_tail:
  assumes "buf_inv h b" "offset b + int (length p) \<le> int (len (buffer b))"
  shows "\<exists>dst. slice_from (buffer b) (offset b) = Inr dst
           \<and> copy_in h dst p = store_at h (buffer b) (nat (offset b)) p
           \<and> put_bytes h dst p = Inr (store_at h (buffer b) (nat (offset b)) p)"
proof -
  note t = tail_slice [OF assms, simplified]
  have "length p \<le> len (buffer b) - nat (offset b)"
    and "int (length p) - 1 < int (len (buffer b) - nat (offset b))"
    using t(2) by linarith+
  then show ?thesis
    by (simp add: t(1) copy_in_def put_bytes_def store_at_def)
qed

lemma set_tail:
  assumes "buf_inv h b" "offset b + 1 \<le> int (len (buffer b))"
  shows "set_index h (buffer b) (offset b) v = Inr (store_at h (buffer b) (nat (offset b)) [v])"
  using assms by (simp add: set_index_def buf_inv_def)

lemma CopyBytes_run:
  assumes "buf_inv h b" "ensureCapacity h b (int (length p)) = Inr (h1, b1)"
  shows "CopyBytes h b p
           = Inr (store_at h1 (buffer b1) (nat (offset b)) p,
                  b1\<lparr>offset := offset b + int (length p)\<rparr>)"
proof -
  note e = ensureCapacity_post [OF assms(1) _ assms(2), simplified]
  from copy_tail [where h = h1 and b = b1 and p = p, OF e(1)] e(2,3) obtain dst
    where "slice_from (buffer b1) (offset b1) = Inr dst"
      "copy_in h1 dst p = store_at h1 (buffer b1) (nat (offset b1)) p"
    by auto
  then show ?thesis
    by (simp add: CopyBytes_def assms(2) and_then_def e(2))
qed

lemma CopyString_run:
  assumes "buf_inv h b" "ensureCapacity h b (int (length p)) = Inr (h1, b1)"
  shows "CopyString h b p
           = Inr (store_at h1 (buffer b1) (nat (offset b)) (string_bytes p),
                  b1\<lparr>offset := offset b + int (length p)\<rparr>)"
proof -
  note e = ensureCapacity_post [OF assms(1) _ assms(2), simplified]
  from copy_tail [where h = h1 and b = b1 and p = "string_bytes p", OF e(1)] e(2,3) obtain dst
    where "slice_from (buffer b1) (offset b1) = Inr dst"
      "copy_in h1 dst (string_bytes p) = store_at h1 (buffer b1) (nat (offset b1)) (string_bytes p)"
    by auto
  then show ?thesis
    by (simp add: CopyString_def assms(2) and_then_def e(2))
qed

lemma Byte_run:
  assumes "buf_inv h b" "ensureCapacity h b 1 = Inr (h1, b1)"
  shows "Byte h b bt
           = Inr (store_at h1 (buffer b1) (nat (offset b)) [bt], b1\<lparr>offset := offset b + 1\<rparr>)"
proof -
  note e = ensureCapacity_post [OF assms(1) _ assms(2), simplified]
  from set_tail [OF e(1), of bt] e(2,3) show ?thesis
    by (simp add: Byte_def assms(2) and_then_def)
qed

lemma CRLF_run:
  assumes "buf_inv h b" "ensureCapacity h b 2 = Inr (h1, b1)"
  shows "CRLF h b
           = Inr (store_at h1 (buffer b1) (nat (offset b)) [13, 10], b1\<lparr>offset := offset b + 2\<rparr>)"
proof -
  note e = ensureCapacity_post [OF assms(1) _ assms(2), simplified]
  let ?s = "buffer b1" and ?c = "nat (offset b)"
  from e have c: "0 \<le> offset b" "offset b + 2 \<le> int (len ?s)" and ok: "slice_ok h1 ?s"
    by (simp_all add: buf_inv_def)
  have first: "set_index h1 ?s (offset b1) 13 = Inr (store_at h1 ?s ?c [13])"
    using c e(2) by (simp add: set_index_def)
  have idx: "nat (offset b + 1) = ?c + length [13 :: byte]"
    using c by simp
  have second: "set_index (store_at h1 ?s ?c [13]) ?s (offset b1 + 1) 10
                  = Inr (store_at (store_at h1 ?s ?c [13]) ?s (?c + length [13 :: byte]) [10])"
    using c e(2) unfolding set_index_def idx [symmetric] by simp
  have fit: "lo ?s + ?c + length [13 :: byte] + length [10 :: byte] \<le> length (h1 ! arr ?s)"
    using ok c by (simp add: slice_ok_def) linarith
  have "store_at (store_at h1 ?s ?c [13]) ?s (?c + length [13 :: byte]) [10]
          = store_at h1 ?s ?c ([13] @ [10])"
    using ok fit by (intro store_at_twice) (simp add: slice_ok_def)
  with first second show ?thesis
    by (simp add: CRLF_def assms(2) and_then_def e(2))
qed

lemma put_run:
  assumes "buf_inv h b" "ensureCapacity h b n = Inr (h1, b1)" "n = int (length p)"
  shows "and_then (ensureCapacity h b n)
           (\<lambda>(h1, b1). and_then (slice_from (buffer b1) (offset b1))
              (\<lambda>dst. and_then (put_bytes h1 dst p)
                 (\<lambda>h2. Inr (h2, b1\<lparr>offset := offset b1 + n\<rparr>))))
         = Inr (store_at h1 (buffer b1) (nat (offset b)) p, b1\<lparr>offset := offset b + n\<rparr>)"
proof -
  have n: "0 \<le> n" using assms(3) by simp
  note e = ensureCapacity_post [OF assms(1) n assms(2)]
  from copy_tail [where h = h1 and b = b1 and p = p, OF e(1)] e(2,3) assms(3) obtain dst
    where "slice_from (buffer b1) (offset b1) = Inr dst"
      "put_bytes h1 dst p = Inr (store_at h1 (buffer b1) (nat (offset b1)) p)"
    by auto
  then show ?thesis
    by (simp add: assms(2) and_then_def e(2))
qed

lemma Uint16_run:
  assumes "buf_inv h b" "ensureCapacity h b 2 = Inr (h1, b1)"
  shows "Uint16 h b v le
           = Inr (store_at h1 (buffer b1) (nat (offset b)) (if le then le_bytes16 v else be_bytes16 v),
                  b1\<lparr>offset := offset b + 2\<rparr>)"
  by (cases le) (simp_all add: Uint16_def PutUint16_def put_run [OF assms])

lemma Uint32_run:
  assumes "buf_inv h b" "ensureCapacity h b 4 = Inr (h1, b1)"
  shows "Uint32 h b v le
           = Inr (store_at h1 (buffer b1) (nat (offset b)) (if le then le_bytes32 v else be_bytes32 v),
                  b1\<lparr>offset := offset b + 4\<rparr>)"
  by (cases le) (simp_all add: Uint32_def PutUint32_def put_run [OF assms])

lemma Uint64_run:
  assumes "buf_inv h b" "ensureCapacity h b 8 = Inr (h1, b1)"
  shows "Uint64 h b v le
           = Inr (store_at h1 (buffer b1) (nat (offset b)) (if le then le_bytes64 v else be_bytes64 v),
                  b1\<lparr>offset := offset b + 8\<rparr>)"
  by (cases le) (simp_all add: Uint64_def PutUint64_def put_run [OF assms])

lemma run_append_run:
  assumes "buf_inv h b"
    and "ensureCapacity h b (int (length (append_bytes c))) = Inr (h1, b1)"
  shows "run_append h b c
           = Inr (store_at h1 (buffer b1) (nat (offset b)) (append_bytes c),
                  b1\<lparr>offset := offset b + int (length (append_bytes c))\<rparr>)"
proof (cases c)
  case (ACopyBytes p)
  with assms show ?thesis by (simp add: CopyBytes_run)
next
  case (ACopyString p)
  with assms show ?thesis by (simp add: CopyString_run)
next
  case (AByte bt)
  with assms show ?thesis by (simp add: Byte_run)
next
  case ACRLF
  with assms show ?thesis by (simp add: CRLF_run)
next
  case (AUint16 v le)
  with assms show ?thesis by (cases le) (simp_all add: Uint16_run)
next
  case (AUint32 v le)
  with assms show ?thesis by (cases le) (simp_all add: Uint32_run)
next
  case (AUint64 v le)
  with assms show ?thesis by (cases le) (simp_all add: Uint64_run)
next
  case (AInt16 v le)
  with assms show ?thesis by (cases le) (simp_all add: Int16_def Uint16_run)
next
  case (AInt32 v le)
  with assms show ?thesis by (cases le) (simp_all add: Int32_def Uint32_run)
next
  case (AInt64 v le)
  with assms show ?thesis by (cases le) (simp_all add: Int64_def Uint64_run)
next
  case (AFloat32 v le)
  with assms show ?thesis by (cases le) (simp_all add: Float32_def Uint32_run)
next
  case (AFloat64 v le)
  with assms show ?thesis by (cases le) (simp_all add: Float64_def Uint64_run)
qed

lemma cursor_le: "buf_inv h b \<Longrightarrow> nat (offset b) \<le> len (buffer b)"
  by (simp add: buf_inv_def nat_le_iff)

lemma append_keep:
  assumes "buf_inv h b" "int (length (append_bytes call)) \<le> int (len (buffer b)) - offset b"
  shows "run_append h b call
           = Inr (store_at h (buffer b) (nat (offset b)) (append_bytes call),
                  b\<lparr>offset := offset b + int (length (append_bytes call))\<rparr>)"
    and "storage (store_at h (buffer b) (nat (offset b)) (append_bytes call)) b
           = take (nat (offset b)) (storage h b) @ append_bytes call
               @ drop (nat (offset b) + length (append_bytes call)) (storage h b)"
proof -
  show "run_append h b call
           = Inr (store_at h (buffer b) (nat (offset b)) (append_bytes call),
                  b\<lparr>offset := offset b + int (length (append_bytes call))\<rparr>)"
    using assms by (simp add: run_append_run ensureCapacity_keep)
  have "nat (offset b) + length (append_bytes call) \<le> len (buffer b)"
    using assms unfolding buf_inv_def by linarith
  with assms(1) show "storage (store_at h (buffer b) (nat (offset b)) (append_bytes call)) b
           = take (nat (offset b)) (storage h b) @ append_bytes call
               @ drop (nat (offset b) + length (append_bytes call)) (storage h b)"
    by (simp add: storage_def buf_inv_def slice_bytes_store_at)
qed

lemma append_grow:
  assumes "buf_inv h b" "int (len (buffer b)) - offset b < int (length (append_bytes call))"
    and "int (length (append_bytes call)) + int (len (buffer b)) \<le> maxAlloc"
  shows "run_append h b call
           = Inr (h @ [take (nat (offset b)) (storage h b) @ append_bytes call
                         @ replicate (len (buffer b) - nat (offset b)) 0],
                  \<lparr>buffer = \<lparr>arr = length h, lo = 0,
                              len = length (append_bytes call) + len (buffer b),
                              cap = length (append_bytes call) + len (buffer b)\<rparr>,
                   offset = offset b + int (length (append_bytes call))\<rparr>)"
proof -
  let ?p = "append_bytes call" and ?c = "nat (offset b)" and ?S = "storage h b"
  let ?n = "length ?p" and ?C = "len (buffer b)"
  let ?s = "\<lparr>arr = length h, lo = 0, len = ?n + ?C, cap = ?n + ?C\<rparr>"
  from assms(1) have c: "?c \<le> ?C" and l: "length ?S = ?C"
    by (simp_all add: cursor_le storage_length)
  from assms(1,2) have big: "?C < ?c + ?n" unfolding buf_inv_def by linarith
  have grow: "ensureCapacity h b (int ?n) = Inr (h @ [?S @ replicate ?n 0], b\<lparr>buffer := ?s\<rparr>)"
    using ensureCapacity_grow [OF assms] by simp
  have "take ?c (?S @ replicate ?n 0) = take ?c ?S"
    using c l by simp
  moreover have "drop (?c + ?n) (?S @ replicate ?n 0) = replicate (?C - ?c) 0"
    using c l big by simp
  ultimately have "store_at (h @ [?S @ replicate ?n 0]) ?s ?c ?p
          = h @ [take ?c ?S @ ?p @ replicate (?C - ?c) 0]"
    by (simp add: store_at_def)
  with run_append_run [OF assms(1) grow] show ?thesis by simp
qed

lemma run_append_panic:
  assumes "ensureCapacity h b (int (length (append_bytes call))) = Inl e"
  shows "run_append h b call = Inl e"
proof (cases call)
  case (ACopyBytes p)
  with assms show ?thesis by (simp add: CopyBytes_def and_then_def)
next
  case (ACopyString p)
  with assms show ?thesis by (simp add: CopyString_def and_then_def)
next
  case (AByte bt)
  with assms show ?thesis by (simp add: Byte_def and_then_def)
next
  case ACRLF
  with assms show ?thesis by (simp add: CRLF_def and_then_def)
next
  case (AUint16 v le)
  with assms show ?thesis by (cases le) (simp_all add: Uint16_def and_then_def)
next
  case (AUint32 v le)
  with assms show ?thesis by (cases le) (simp_all add: Uint32_def and_then_def)
next
  case (AUint64 v le)
  with assms show ?thesis by (cases le) (simp_all add: Uint64_def and_then_def)
next
  case (AInt16 v le)
  with assms show ?thesis by (cases le) (simp_all add: Int16_def Uint16_def and_then_def)
next
  case (AInt32 v le)
  with assms show ?thesis by (cases le) (simp_all add: Int32_def Uint32_def and_then_def)
next
  case (AInt64 v le)
  with assms show ?thesis by (cases le) (simp_all add: Int64_def Uint64_def and_then_def)
next
  case (AFloat32 v le)
  with assms show ?thesis by (cases le) (simp_all add: Float32_def Uint32_def and_then_def)
next
  case (AFloat64 v le)
  with assms show ?thesis by (cases le) (simp_all add: Float64_def Uint64_def and_then_def)
qed


section \<open>Appending\<close>

text \<open>
  Claim C1. In a state that satisfies the invariant, with capacity \<open>C\<close> and cursor \<open>c\<close>,
  an append-family call that writes \<open>n\<close> bytes behaves as follows. When the spare tail
  capacity \<open>C - c\<close> is at least \<open>n\<close>, \<^verbatim>\<open>ensureCapacity\<close> changes nothing and the buffer
  keeps its slice. Otherwise \<^verbatim>\<open>ensureCapacity\<close> allocates one new array of exactly \<open>n + C\<close>
  bytes whose prefix is the old storage (the rest is zero), the buffer's slice becomes that
  array, and the arrays allocated before are not touched. In both cases the bytes of the
  call are then at \<^verbatim>\<open>storage[c:c+n]\<close>, the cursor is \<open>c + n\<close>, and \<^verbatim>\<open>storage[0:c]\<close> is as
  before. This is so whenever the bytes fit or \<open>n + C\<close> is a length \<^verbatim>\<open>make\<close> serves, which
  the lengths of two byte sequences that exist always are; beyond that the call panics in
  \<^verbatim>\<open>make\<close>.
\<close>

theorem append_tail_grow_and_write:
  assumes "buf_inv h b"
    and "n = length (append_bytes call)" and "C = len (buffer b)" and "c = nat (offset b)"
  shows "(int n \<le> int C - offset b \<or> int n + int C \<le> maxAlloc \<longrightarrow>
          (\<exists>h1 b1 h' b'.
             ensureCapacity h b (int n) = Inr (h1, b1) \<and> run_append h b call = Inr (h', b')
           \<and> (if int n \<le> int C - offset b
                then h1 = h \<and> b1 = b \<and> buffer b' = buffer b \<and> length h' = length h
                else h1 = h @ [storage h b @ replicate n 0]
                   \<and> buffer b1 = \<lparr>arr = length h, lo = 0, len = n + C, cap = n + C\<rparr>
                   \<and> buffer b' = buffer b1 \<and> length h' = Suc (length h)
                   \<and> take (length h) h' = h)
           \<and> offset b' = offset b + int n
           \<and> storage h' b'
                 = take c (storage h b) @ append_bytes call
                     @ (if int n \<le> int C - offset b then drop (c + n) (storage h b)
                        else replicate (C - c) 0)
           \<and> take n (drop c (storage h' b')) = append_bytes call
           \<and> take c (storage h' b') = take c (storage h b)
           \<and> content h' b' = content h b @ append_bytes call))
       \<and> (\<not> (int n \<le> int C - offset b \<or> int n + int C \<le> maxAlloc) \<longrightarrow>
            ensureCapacity h b (int n) = Inl MakesliceLenOutOfRange
          \<and> run_append h b call = Inl MakesliceLenOutOfRange)"
proof (intro conjI impI)
  assume "\<not> (int n \<le> int C - offset b \<or> int n + int C \<le> maxAlloc)"
  then have "ensureCapacity h b (int n) = Inl MakesliceLenOutOfRange"
    unfolding assms(3) by (rule ensureCapacity_refused)
  then show "ensureCapacity h b (int n) = Inl MakesliceLenOutOfRange"
    and "run_append h b call = Inl MakesliceLenOutOfRange"
    unfolding assms(2) by (simp_all add: run_append_panic)
next
  assume served: "int n \<le> int C - offset b \<or> int n + int C \<le> maxAlloc"
  let ?p = "append_bytes call" and ?S = "storage h b"
  have cC: "c \<le> C" and lS: "length ?S = C" and c0: "0 \<le> offset b"
    using assms by (simp_all add: cursor_le storage_length) (simp add: buf_inv_def)
  have lt: "length (take c ?S) = c" using cC lS by simp
  show "\<exists>h1 b1 h' b'.
             ensureCapacity h b (int n) = Inr (h1, b1) \<and> run_append h b call = Inr (h', b')
           \<and> (if int n \<le> int C - offset b
                then h1 = h \<and> b1 = b \<and> buffer b' = buffer b \<and> length h' = length h
                else h1 = h @ [storage h b @ replicate n 0]
                   \<and> buffer b1 = \<lparr>arr = length h, lo = 0, len = n + C, cap = n + C\<rparr>
                   \<and> buffer b' = buffer b1 \<and> length h' = Suc (length h)
                   \<and> take (length h) h' = h)
           \<and> offset b' = offset b + int n
           \<and> storage h' b'
                 = take c (storage h b) @ append_bytes call
                     @ (if int n \<le> int C - offset b then drop (c + n) (storage h b)
                        else replicate (C - c) 0)
           \<and> take n (drop c (storage h' b')) = append_bytes call
           \<and> take c (storage h' b') = take c (storage h b)
           \<and> content h' b' = content h b @ append_bytes call"
  proof (cases "int n \<le> int C - offset b")
    case True
    let ?h = "store_at h (buffer b) c ?p"
    let ?b = "b\<lparr>offset := offset b + int n\<rparr>"
    have run: "run_append h b call = Inr (?h, ?b)"
      and st: "storage ?h ?b = take c ?S @ ?p @ drop (c + n) ?S"
      using append_keep [OF assms(1), of call] True assms(2-4)
      by (simp_all add: storage_def)
    have ens: "ensureCapacity h b (int n) = Inr (h, b)"
      using True assms(3) by (simp add: ensureCapacity_keep)
    have "take n (drop c (storage ?h ?b)) = ?p" "take c (storage ?h ?b) = take c ?S"
      unfolding st using lt assms(2) by (simp_all del: length_take)
    moreover have "content ?h ?b = content h b @ ?p"
      unfolding content_def st using lt assms(2,4) c0
      by (simp add: nat_add_distrib del: length_take)
    ultimately show ?thesis
      using True run ens st by (simp add: length_store_at)
  next
    case False
    with served have fits: "int n + int C \<le> maxAlloc" by simp
    let ?s = "\<lparr>arr = length h, lo = 0, len = n + C, cap = n + C\<rparr>"
    let ?h = "h @ [take c ?S @ ?p @ replicate (C - c) 0]"
    let ?b = "\<lparr>buffer = ?s, offset = offset b + int n\<rparr>"
    have run: "run_append h b call = Inr (?h, ?b)"
      using append_grow [OF assms(1), of call] False fits assms(2-4) by simp
    have ens: "ensureCapacity h b (int n)
                 = Inr (h @ [?S @ replicate n 0], b\<lparr>buffer := ?s\<rparr>)"
      using ensureCapacity_grow [OF assms(1), of "int n"] False fits assms(3) by simp
    have st: "storage ?h ?b = take c ?S @ ?p @ replicate (C - c) 0"
      using cC lS assms(2) by (simp add: storage_def slice_bytes_def)
    have "take n (drop c (storage ?h ?b)) = ?p" "take c (storage ?h ?b) = take c ?S"
      unfolding st using lt assms(2) by (simp_all del: length_take)
    moreover have "content ?h ?b = content h b @ ?p"
      unfolding content_def st using lt assms(2,4) c0
      by (simp add: nat_add_distrib del: length_take)
    ultimately show ?thesis
      using False run ens st by simp
  qed
qed


theorem append_tail_grow_and_write_witness:
  "buf_inv [[1, 2, 3]] \<lparr>buffer = \<lparr>arr = 0, lo = 0, len = 3, cap = 3\<rparr>, offset = 2\<rparr>
   \<and> run_append [[1, 2, 3]] \<lparr>buffer = \<lparr>arr = 0, lo = 0, len = 3, cap = 3\<rparr>, offset = 2\<rparr>
         (AUint16 0x0102 True)
       = Inr ([[1, 2, 3], [1, 2, 2, 1, 0]],
              \<lparr>buffer = \<lparr>arr = 1, lo = 0, len = 5, cap = 5\<rparr>, offset = 4\<rparr>)
   \<and> content [[1, 2, 3], [1, 2, 2, 1, 0]]
         \<lparr>buffer = \<lparr>arr = 1, lo = 0, len = 5, cap = 5\<rparr>, offset = 4\<rparr>
       = content [[1, 2, 3]] \<lparr>buffer = \<lparr>arr = 0, lo = 0, len = 3, cap = 3\<rparr>, offset = 2\<rparr>
           @ append_bytes (AUint16 0x0102 True)"
proof -
  let ?h = "[[1, 2, 3 :: byte]]"
  let ?b = "\<lparr>buffer = \<lparr>arr = 0, lo = 0, len = 3, cap = 3\<rparr>, offset = 2\<rparr>"
  let ?call = "AUint16 0x0102 True"
  have inv: "buf_inv ?h ?b"
    by code_simp
  have run: "run_append ?h ?b ?call
               = Inr ([[1, 2, 3], [1, 2, 2, 1, 0]],
                      \<lparr>buffer = \<lparr>arr = 1, lo = 0, len = 5, cap = 5\<rparr>, offset = 4\<rparr>)"
    by code_simp
  have served: "int (length (append_bytes ?call)) \<le> int (len (buffer ?b)) - offset ?b
                  \<or> int (length (append_bytes ?call)) + int (len (buffer ?b)) \<le> maxAlloc"
    by (simp add: maxAlloc_def)
  from append_tail_grow_and_write [OF inv refl refl refl, of ?call, THEN conjunct1,
      THEN mp, OF served]
  obtain h' b' where "run_append ?h ?b ?call = Inr (h', b')"
    and "content h' b' = content ?h ?b @ append_bytes ?call"
    by blast
  with run have "content [[1, 2, 3], [1, 2, 2, 1, 0]]
          \<lparr>buffer = \<lparr>arr = 1, lo = 0, len = 5, cap = 5\<rparr>, offset = 4\<rparr>
        = content ?h ?b @ append_bytes ?call"
    by simp
  with inv run show ?thesis by blast
qed

section \<open>Byte order\<close>

lemma bit_low_byte:
  fixes v :: "'a::len word"
  shows "bit (ucast (ucast v :: byte) :: 'a word) n \<longleftrightarrow> n < 8 \<and> bit v n"
  by (auto simp: bit_simps dest: bit_imp_le_length)

lemma bit_byte_at:
  fixes v :: "'a::len word"
  shows "bit (push_bit k (ucast (ucast (drop_bit k v) :: byte) :: 'a word)) n
           \<longleftrightarrow> k \<le> n \<and> n < k + 8 \<and> bit v n"
  by (auto simp: bit_simps dest: bit_imp_le_length)

lemma le16_round_trip: "le_uint16 (le_bytes16 v) = v"
  unfolding le_uint16_def le_bytes16_def
  by (rule bit_eqI) (auto simp: bit_or_iff bit_low_byte bit_byte_at dest: bit_imp_le_length)

lemma be16_round_trip: "be_uint16 (be_bytes16 v) = v"
  unfolding be_uint16_def be_bytes16_def
  by (rule bit_eqI) (auto simp: bit_or_iff bit_low_byte bit_byte_at dest: bit_imp_le_length)

lemma cover32:
  "n < 32 \<Longrightarrow> n < 8 \<or> 8 \<le> n \<and> n < 8 + 8 \<or> 16 \<le> n \<and> n < 16 + 8 \<or> 24 \<le> n \<and> n < 24 + 8"
  for n :: nat
  by arith

lemma le32_round_trip: "le_uint32 (le_bytes32 v) = v"
proof (rule bit_eqI)
  fix n
  show "bit (le_uint32 (le_bytes32 v)) n = bit v n"
    unfolding le_uint32_def le_bytes32_def
    using cover32 [of n] bit_imp_le_length [of v n]
    by (simp add: bit_or_iff bit_low_byte bit_byte_at) blast
qed

lemma be32_round_trip: "be_uint32 (be_bytes32 v) = v"
proof (rule bit_eqI)
  fix n
  show "bit (be_uint32 (be_bytes32 v)) n = bit v n"
    unfolding be_uint32_def be_bytes32_def
    using cover32 [of n] bit_imp_le_length [of v n]
    by (simp add: bit_or_iff bit_low_byte bit_byte_at) blast
qed

lemma cover64:
  "n < 64 \<Longrightarrow> n < 8 \<or> 8 \<le> n \<and> n < 8 + 8 \<or> 16 \<le> n \<and> n < 16 + 8 \<or> 24 \<le> n \<and> n < 24 + 8
     \<or> 32 \<le> n \<and> n < 32 + 8 \<or> 40 \<le> n \<and> n < 40 + 8 \<or> 48 \<le> n \<and> n < 48 + 8
     \<or> 56 \<le> n \<and> n < 56 + 8"
  for n :: nat
  by arith

lemma le64_round_trip: "le_uint64 (le_bytes64 v) = v"
proof (rule bit_eqI)
  fix n
  show "bit (le_uint64 (le_bytes64 v)) n = bit v n"
    unfolding le_uint64_def le_bytes64_def
    using cover64 [of n] bit_imp_le_length [of v n]
    by (simp add: bit_or_iff bit_low_byte bit_byte_at) blast
qed

lemma be64_round_trip: "be_uint64 (be_bytes64 v) = v"
proof (rule bit_eqI)
  fix n
  show "bit (be_uint64 (be_bytes64 v)) n = bit v n"
    unfolding be_uint64_def be_bytes64_def
    using cover64 [of n] bit_imp_le_length [of v n]
    by (simp add: bit_or_iff bit_low_byte bit_byte_at) blast
qed

section \<open>What an append leaves\<close>

lemma append_effect:
  assumes "buf_inv h b"
    and "int (length (append_bytes call)) \<le> int (len (buffer b)) - offset b
         \<or> int (length (append_bytes call)) + int (len (buffer b)) \<le> maxAlloc"
  shows "\<exists>h' b'. run_append h b call = Inr (h', b') \<and> buf_inv h' b'
           \<and> offset b' = offset b + int (length (append_bytes call))
           \<and> take (length (append_bytes call)) (drop (nat (offset b)) (storage h' b'))
                = append_bytes call
           \<and> content h' b' = content h b @ append_bytes call"
proof -
  let ?p = "append_bytes call" and ?S = "storage h b" and ?c = "nat (offset b)"
  let ?n = "length ?p" and ?C = "len (buffer b)"
  have cC: "?c \<le> ?C" and lS: "length ?S = ?C" and c0: "0 \<le> offset b"
    and ok: "slice_ok h (buffer b)"
    using assms(1) by (simp_all add: cursor_le storage_length) (simp_all add: buf_inv_def)
  have lt: "length (take ?c ?S) = ?c" using cC lS by simp
  show ?thesis
  proof (cases "int ?n \<le> int ?C - offset b")
    case True
    let ?h = "store_at h (buffer b) ?c ?p"
    let ?b = "b\<lparr>offset := offset b + int ?n\<rparr>"
    note k = append_keep [OF assms(1) True]
    have fit: "lo (buffer b) + ?c + ?n \<le> length (h ! arr (buffer b))"
      and a: "arr (buffer b) < length h"
      using ok True c0 unfolding slice_ok_def by linarith+
    have "slice_ok ?h (buffer b)" using ok a fit by (rule slice_ok_store_at)
    then have inv: "buf_inv ?h ?b"
      using True c0 by (simp add: buf_inv_def)
    have st: "storage ?h ?b = take ?c ?S @ ?p @ drop (?c + ?n) ?S"
      using k(2) by (simp add: storage_def)
    have "take ?n (drop ?c (storage ?h ?b)) = ?p"
      unfolding st using lt by (simp del: length_take)
    moreover have "content ?h ?b = content h b @ ?p"
      unfolding content_def st using lt c0 by (simp add: nat_add_distrib del: length_take)
    ultimately show ?thesis using k(1) inv by simp
  next
    case False
    let ?s = "\<lparr>arr = length h, lo = 0, len = ?n + ?C, cap = ?n + ?C\<rparr>"
    let ?h = "h @ [take ?c ?S @ ?p @ replicate (?C - ?c) 0]"
    let ?b = "\<lparr>buffer = ?s, offset = offset b + int ?n\<rparr>"
    have run: "run_append h b call = Inr (?h, ?b)"
      using append_grow [OF assms(1), of call] False assms(2) by simp
    have inv: "buf_inv ?h ?b"
      using cC lS c0 unfolding buf_inv_def slice_ok_def by simp
    have st: "storage ?h ?b = take ?c ?S @ ?p @ replicate (?C - ?c) 0"
      using cC lS by (simp add: storage_def slice_bytes_def)
    have "take ?n (drop ?c (storage ?h ?b)) = ?p"
      unfolding st using lt by (simp del: length_take)
    moreover have "content ?h ?b = content h b @ ?p"
      unfolding content_def st using lt c0 by (simp add: nat_add_distrib del: length_take)
    ultimately show ?thesis using run inv by simp
  qed
qed

section \<open>Fixed-width values read back\<close>

text \<open>
  Claim C3. In a state that satisfies the invariant, \<^verbatim>\<open>Uint16\<close>, \<^verbatim>\<open>Uint32\<close> and \<^verbatim>\<open>Uint64\<close>
  return, and decoding the 2, 4 or 8 bytes that follow the old cursor with the decoder of
  \<^verbatim>\<open>encoding/binary\<close> for the same byte order gives the value that was written, for
  every value and both byte orders. They return whenever the 2, 4 or 8 bytes fit or
  \<^verbatim>\<open>make\<close> serves the new length, which leaves out only a full buffer within 8 bytes of
  \<^verbatim>\<open>maxAlloc\<close>; there they panic in \<^verbatim>\<open>make\<close>.
\<close>

theorem fixed_width_round_trip:
  assumes "buf_inv h b"
  shows "(if 2 \<le> int (len (buffer b)) - offset b \<or> 2 + int (len (buffer b)) \<le> maxAlloc
          then \<exists>h' b'. Uint16 h b v16 le = Inr (h', b')
                 \<and> (if le then le_uint16 else be_uint16)
                      (take 2 (drop (nat (offset b)) (storage h' b'))) = v16
          else Uint16 h b v16 le = Inl MakesliceLenOutOfRange)
       \<and> (if 4 \<le> int (len (buffer b)) - offset b \<or> 4 + int (len (buffer b)) \<le> maxAlloc
          then \<exists>h' b'. Uint32 h b v32 le = Inr (h', b')
                 \<and> (if le then le_uint32 else be_uint32)
                      (take 4 (drop (nat (offset b)) (storage h' b'))) = v32
          else Uint32 h b v32 le = Inl MakesliceLenOutOfRange)
       \<and> (if 8 \<le> int (len (buffer b)) - offset b \<or> 8 + int (len (buffer b)) \<le> maxAlloc
          then \<exists>h' b'. Uint64 h b v64 le = Inr (h', b')
                 \<and> (if le then le_uint64 else be_uint64)
                      (take 8 (drop (nat (offset b)) (storage h' b'))) = v64
          else Uint64 h b v64 le = Inl MakesliceLenOutOfRange)"
proof -
  have refused: "run_append h b call = Inl MakesliceLenOutOfRange"
    if "\<not> (int (length (append_bytes call)) \<le> int (len (buffer b)) - offset b
            \<or> int (length (append_bytes call)) + int (len (buffer b)) \<le> maxAlloc)" for call
    using that by (intro run_append_panic ensureCapacity_refused)
  show ?thesis
  proof (intro conjI)
    show "if 2 \<le> int (len (buffer b)) - offset b \<or> 2 + int (len (buffer b)) \<le> maxAlloc
          then \<exists>h' b'. Uint16 h b v16 le = Inr (h', b')
                 \<and> (if le then le_uint16 else be_uint16)
                      (take 2 (drop (nat (offset b)) (storage h' b'))) = v16
          else Uint16 h b v16 le = Inl MakesliceLenOutOfRange"
    proof (cases "2 \<le> int (len (buffer b)) - offset b \<or> 2 + int (len (buffer b)) \<le> maxAlloc")
      case True
      then have "int (length (append_bytes (AUint16 v16 le))) \<le> int (len (buffer b)) - offset b
                 \<or> int (length (append_bytes (AUint16 v16 le))) + int (len (buffer b)) \<le> maxAlloc"
        by (cases le) simp_all
      from append_effect [OF assms this] True show ?thesis
        by (cases le) (auto simp: le16_round_trip be16_round_trip)
    next
      case False
      then have "\<not> (int (length (append_bytes (AUint16 v16 le))) \<le> int (len (buffer b)) - offset b
                 \<or> int (length (append_bytes (AUint16 v16 le))) + int (len (buffer b)) \<le> maxAlloc)"
        by (cases le) simp_all
      from refused [OF this] False show ?thesis by simp
    qed
  show "if 4 \<le> int (len (buffer b)) - offset b \<or> 4 + int (len (buffer b)) \<le> maxAlloc
          then \<exists>h' b'. Uint32 h b v32 le = Inr (h', b')
                 \<and> (if le then le_uint32 else be_uint32)
                      (take 4 (drop (nat (offset b)) (storage h' b'))) = v32
          else Uint32 h b v32 le = Inl MakesliceLenOutOfRange"
    proof (cases "4 \<le> int (len (buffer b)) - offset b \<or> 4 + int (len (buffer b)) \<le> maxAlloc")
      case True
      then have "int (length (append_bytes (AUint32 v32 le))) \<le> int (len (buffer b)) - offset b
                 \<or> int (length (append_bytes (AUint32 v32 le))) + int (len (buffer b)) \<le> maxAlloc"
        by (cases le) simp_all
      from append_effect [OF assms this] True show ?thesis
        by (cases le) (auto simp: le32_round_trip be32_round_trip)
    next
      case False
      then have "\<not> (int (length (append_bytes (AUint32 v32 le))) \<le> int (len (buffer b)) - offset b
                 \<or> int (length (append_bytes (AUint32 v32 le))) + int (len (buffer b)) \<le> maxAlloc)"
        by (cases le) simp_all
      from refused [OF this] False show ?thesis by simp
    qed
  show "if 8 \<le> int (len (buffer b)) - offset b \<or> 8 + int (len (buffer b)) \<le> maxAlloc
          then \<exists>h' b'. Uint64 h b v64 le = Inr (h', b')
                 \<and> (if le then le_uint64 else be_uint64)
                      (take 8 (drop (nat (offset b)) (storage h' b'))) = v64
          else Uint64 h b v64 le = Inl MakesliceLenOutOfRange"
    proof (cases "8 \<le> int (len (buffer b)) - offset b \<or> 8 + int (len (buffer b)) \<le> maxAlloc")
      case True
      then have "int (length (append_bytes (AUint64 v64 le))) \<le> int (len (buffer b)) - offset b
                 \<or> int (length (append_bytes (AUint64 v64 le))) + int (len (buffer b)) \<le> maxAlloc"
        by (cases le) simp_all
      from append_effect [OF assms this] True show ?thesis
        by (cases le) (auto simp: le64_round_trip be64_round_trip)
    next
      case False
      then have "\<not> (int (length (append_bytes (AUint64 v64 le))) \<le> int (len (buffer b)) - offset b
                 \<or> int (length (append_bytes (AUint64 v64 le))) + int (len (buffer b)) \<le> maxAlloc)"
        by (cases le) simp_all
      from refused [OF this] False show ?thesis by simp
    qed
  qed
qed

theorem fixed_width_round_trip_witness:
  "buf_inv [[7, 0, 0]] \<lparr>buffer = \<lparr>arr = 0, lo = 0, len = 3, cap = 3\<rparr>, offset = 1\<rparr>
   \<and> Uint16 [[7, 0, 0]] \<lparr>buffer = \<lparr>arr = 0, lo = 0, len = 3, cap = 3\<rparr>, offset = 1\<rparr>
         0x0102 False
       = Inr ([[7, 1, 2]], \<lparr>buffer = \<lparr>arr = 0, lo = 0, len = 3, cap = 3\<rparr>, offset = 3\<rparr>)
   \<and> be_uint16 (take 2 (drop 1 (storage [[7, 1, 2]]
         \<lparr>buffer = \<lparr>arr = 0, lo = 0, len = 3, cap = 3\<rparr>, offset = 3\<rparr>))) = 0x0102"
proof -
  let ?h = "[[7, 0, 0 :: byte]]"
  let ?b = "\<lparr>buffer = \<lparr>arr = 0, lo = 0, len = 3, cap = 3\<rparr>, offset = 1\<rparr>"
  have inv: "buf_inv ?h ?b"
    by code_simp
  have run: "Uint16 ?h ?b 0x0102 False
               = Inr ([[7, 1, 2]], \<lparr>buffer = \<lparr>arr = 0, lo = 0, len = 3, cap = 3\<rparr>, offset = 3\<rparr>)"
    by code_simp
  have served: "2 \<le> int (len (buffer ?b)) - offset ?b \<or> 2 + int (len (buffer ?b)) \<le> maxAlloc"
    by simp
  note t = fixed_width_round_trip [OF inv, of "0x0102" False, THEN conjunct1]
  from t [unfolded if_P [OF served]]
  obtain h' b' where "Uint16 ?h ?b 0x0102 False = Inr (h', b')"
    and "(if False then le_uint16 else be_uint16)
           (take 2 (drop (nat (offset ?b)) (storage h' b'))) = 0x0102"
    by blast
  with run have "be_uint16 (take 2 (drop 1 (storage [[7, 1, 2]]
         \<lparr>buffer = \<lparr>arr = 0, lo = 0, len = 3, cap = 3\<rparr>, offset = 3\<rparr>))) = 0x0102"
    by simp
  with inv run show ?thesis by blast
qed

section \<open>The prepend family as one head write\<close>

lemma and_then_simps:
  "and_then (Inr x) k = k x" "and_then (Inl e) k = Inl e"
  by (simp_all add: and_then_def)

lemma prependStart_keep:
  assumes "buf_inv h b" "0 \<le> n" "n \<le> int (len (buffer b)) - offset b"
  shows "prependStart h b n f
           = and_then
               (f (store_at h (buffer b) (nat n) (take (len (buffer b) - nat n) (storage h b)))
                  (buffer b))
               (\<lambda>h3. Inr (h3, b\<lparr>offset := offset b + n\<rparr>))"
proof -
  let ?s = "buffer b"
  from assms have n: "n \<le> int (len ?s)" and cap: "len ?s \<le> cap ?s"
    unfolding buf_inv_def slice_ok_def by linarith+
  let ?d = "\<lparr>arr = arr ?s, lo = lo ?s + nat n, len = len ?s - nat n, cap = cap ?s - nat n\<rparr>"
  have sl: "slice_from ?s n = Inr ?d"
    using assms(2) n cap by (simp add: slice_from_def slice_range_def nat_diff_distrib)
  have "copy_slice h ?d ?s = store_at h ?s (nat n) (take (len ?s - nat n) (storage h b))"
    by (simp add: copy_slice_def store_at_def storage_def min_def)
  with sl assms(3) show ?thesis
    by (simp add: prependStart_def and_then_simps)
qed

lemma prependStart_refused:
  assumes "\<not> (n \<le> int (len (buffer b)) - offset b \<or> n + int (len (buffer b)) \<le> maxAlloc)"
  shows "prependStart h b n f = Inl MakesliceLenOutOfRange"
  using assms by (simp add: prependStart_def make_bytes_def and_then_simps)

lemma prependStart_grow:
  assumes "buf_inv h b" "int (len (buffer b)) - offset b < n"
    and "n + int (len (buffer b)) \<le> maxAlloc"
  shows "prependStart h b n f
           = and_then
               (f (h @ [replicate (nat n) 0 @ storage h b])
                  \<lparr>arr = length h, lo = 0, len = nat n + len (buffer b),
                     cap = nat n + len (buffer b)\<rparr>)
               (\<lambda>h3. Inr (h3, b\<lparr>buffer := \<lparr>arr = length h, lo = 0,
                                              len = nat n + len (buffer b),
                                              cap = nat n + len (buffer b)\<rparr>,
                                  offset := offset b + n\<rparr>))"
proof -
  let ?s = "buffer b" and ?S = "storage h b"
  let ?m = "nat n + len ?s"
  let ?z = "replicate ?m (0 :: byte)"
  from assms(1,2) have n: "0 < n" and a: "arr ?s < length h"
    unfolding buf_inv_def slice_ok_def by linarith+
  have l: "length ?S = len ?s" using assms(1) by (rule storage_length)
  have eq: "nat (n + int (len ?s)) = ?m" using n by simp
  have mk: "make_bytes h (n + int (len ?s))
              = Inr (h @ [?z], \<lparr>arr = length h, lo = 0, len = ?m, cap = ?m\<rparr>)"
    using n assms(3) by (simp add: make_bytes_def eq)
  let ?d = "\<lparr>arr = length h, lo = nat n, len = len ?s, cap = len ?s\<rparr>"
  have sl: "slice_from \<lparr>arr = length h, lo = 0, len = ?m, cap = ?m\<rparr> n = Inr ?d"
    using n by (simp add: slice_from_def slice_range_def)
  have sb: "slice_bytes (h @ [?z]) ?s = ?S"
    using a by (simp add: storage_def slice_bytes_append_heap)
  have "copy_slice (h @ [?z]) ?d ?s = h @ [replicate (nat n) 0 @ ?S]"
    using l by (simp add: copy_slice_def sb store_at_def)
  with mk sl assms(2) show ?thesis
    by (simp add: prependStart_def and_then_simps)
qed

text \<open>The closure of each prepend method writes the bytes of the call at the start of a
  slice that is long enough.\<close>

lemma head_writers:
  assumes "length p \<le> len s"
  shows "copy_in H s p = store_at H s 0 p"
    and "put_bytes H s p = Inr (store_at H s 0 p)"
    and "p = [v] \<Longrightarrow> set_index H s 0 v = Inr (store_at H s 0 p)"
  using assms by (auto simp: copy_in_def put_bytes_def set_index_def)

lemma run_prepend_writer:
  "\<exists>f. run_prepend h b call = prependStart h b (int (length (prepend_bytes call))) f
     \<and> (\<forall>H s. length (prepend_bytes call) \<le> len s
            \<longrightarrow> f H s = Inr (store_at H s 0 (prepend_bytes call)))"
proof (cases call)
  case (PBytes v)
  show ?thesis
    unfolding PBytes
    by (rule exI [of _ "\<lambda>h1 s. Inr (copy_in h1 s v)"])
      (simp add: head_writers)
next
  case (PByte v)
  show ?thesis
    unfolding PByte
    by (rule exI [of _ "\<lambda>h1 s. set_index h1 s 0 v"])
      (simp add: PrependByte_def head_writers)
next
  case (PString v)
  show ?thesis
    unfolding PString
    by (rule exI [of _ "\<lambda>h1 s. Inr (copy_in h1 s (string_bytes v))"])
      (simp add: PrependString_def head_writers)
next
  case (PUint16 v le)
  show ?thesis
    unfolding PUint16
    by (rule exI [of _ "\<lambda>h1 s. PutUint16 le h1 s v"])
      (simp add: PrependUint16_def PutUint16_def head_writers)
next
  case (PUint32 v le)
  show ?thesis
    unfolding PUint32
    by (rule exI [of _ "\<lambda>h1 s. PutUint32 le h1 s v"])
      (simp add: PrependUint32_def PutUint32_def head_writers)
next
  case (PUint64 v le)
  show ?thesis
    unfolding PUint64
    by (rule exI [of _ "\<lambda>h1 s. PutUint64 le h1 s v"])
      (simp add: PrependUint64_def PutUint64_def head_writers)
next
  case (PInt16 v le)
  show ?thesis
    unfolding PInt16
    by (rule exI [of _ "\<lambda>h1 s. PutUint16 le h1 s v"])
      (simp add: PrependInt16_def PrependUint16_def PutUint16_def head_writers)
next
  case (PInt32 v le)
  show ?thesis
    unfolding PInt32
    by (rule exI [of _ "\<lambda>h1 s. PutUint32 le h1 s v"])
      (simp add: PrependInt32_def PrependUint32_def PutUint32_def head_writers)
next
  case (PInt64 v le)
  show ?thesis
    unfolding PInt64
    by (rule exI [of _ "\<lambda>h1 s. PutUint64 le h1 s v"])
      (simp add: PrependInt64_def PrependUint64_def PutUint64_def head_writers)
next
  case (PFloat32 v le)
  show ?thesis
    unfolding PFloat32
    by (rule exI [of _ "\<lambda>h1 s. PutUint32 le h1 s v"])
      (simp add: PrependFloat32_def PrependUint32_def PutUint32_def head_writers)
next
  case (PFloat64 v le)
  show ?thesis
    unfolding PFloat64
    by (rule exI [of _ "\<lambda>h1 s. PutUint64 le h1 s v"])
      (simp add: PrependFloat64_def PrependUint64_def PutUint64_def head_writers)
qed

lemma storage_offset [simp]: "storage h (b\<lparr>offset := x\<rparr>) = storage h b"
  by (simp add: storage_def)

lemma prepend_keep:
  assumes "buf_inv h b"
    and "int (length (prepend_bytes call)) \<le> int (len (buffer b)) - offset b"
  shows "run_prepend h b call
           = Inr (store_at h (buffer b) 0
                    (prepend_bytes call
                       @ take (len (buffer b) - length (prepend_bytes call)) (storage h b)),
                  b\<lparr>offset := offset b + int (length (prepend_bytes call))\<rparr>)"
    and "storage (store_at h (buffer b) 0
                    (prepend_bytes call
                       @ take (len (buffer b) - length (prepend_bytes call)) (storage h b))) b
           = prepend_bytes call
               @ take (len (buffer b) - length (prepend_bytes call)) (storage h b)"
proof -
  let ?p = "prepend_bytes call" and ?s = "buffer b" and ?S = "storage h b"
  let ?n = "length ?p" and ?C = "len ?s"
  let ?X = "take (?C - ?n) ?S"
  from assms have ok: "slice_ok h ?s" and nC: "?n \<le> ?C"
    unfolding buf_inv_def by linarith+
  have lS: "length ?S = ?C" using assms(1) by (rule storage_length)
  have lX: "length ?X = ?C - ?n" using lS by simp
  have a: "arr ?s < length h" and fit: "lo ?s + 0 + ?n + length ?X \<le> length (h ! arr ?s)"
    using ok nC lX unfolding slice_ok_def by linarith+
  obtain f where f: "run_prepend h b call = prependStart h b (int ?n) f"
    and w: "\<And>H s. ?n \<le> len s \<Longrightarrow> f H s = Inr (store_at H s 0 ?p)"
    using run_prepend_writer [of h b call] by blast
  have "run_prepend h b call
          = Inr (store_at (store_at h ?s (0 + ?n) ?X) ?s 0 ?p, b\<lparr>offset := offset b + int ?n\<rparr>)"
    using prependStart_keep [OF assms(1) _ assms(2), of f] w [OF nC]
    by (simp add: f and_then_simps)
  also have "store_at (store_at h ?s (0 + ?n) ?X) ?s 0 ?p = store_at h ?s 0 (?p @ ?X)"
    using a fit by (rule store_at_before)
  finally show "run_prepend h b call
           = Inr (store_at h ?s 0 (?p @ ?X), b\<lparr>offset := offset b + int ?n\<rparr>)" .
  have "0 + length (?p @ ?X) \<le> len ?s" using nC lX by simp
  from slice_bytes_store_at [OF ok this]
  show "storage (store_at h ?s 0 (?p @ ?X)) b = ?p @ ?X"
    using nC lX lS by (simp add: storage_def del: length_take)
qed

lemma run_prepend_refused:
  assumes "\<not> (int (length (prepend_bytes call)) \<le> int (len (buffer b)) - offset b
             \<or> int (length (prepend_bytes call)) + int (len (buffer b)) \<le> maxAlloc)"
  shows "run_prepend h b call = Inl MakesliceLenOutOfRange"
proof -
  obtain f where "run_prepend h b call = prependStart h b (int (length (prepend_bytes call))) f"
    using run_prepend_writer [of h b call] by blast
  with prependStart_refused [OF assms, of h f] show ?thesis by simp
qed

lemma prepend_grow:
  assumes "buf_inv h b"
    and "int (len (buffer b)) - offset b < int (length (prepend_bytes call))"
    and "int (length (prepend_bytes call)) + int (len (buffer b)) \<le> maxAlloc"
  shows "run_prepend h b call
           = Inr (h @ [prepend_bytes call @ storage h b],
                  b\<lparr>buffer := \<lparr>arr = length h, lo = 0,
                                len = length (prepend_bytes call) + len (buffer b),
                                cap = length (prepend_bytes call) + len (buffer b)\<rparr>,
                    offset := offset b + int (length (prepend_bytes call))\<rparr>)"
proof -
  let ?p = "prepend_bytes call" and ?S = "storage h b"
  let ?n = "length ?p" and ?C = "len (buffer b)"
  let ?s = "\<lparr>arr = length h, lo = 0, len = ?n + ?C, cap = ?n + ?C\<rparr>"
  obtain f where f: "run_prepend h b call = prependStart h b (int ?n) f"
    and w: "\<And>H s. ?n \<le> len s \<Longrightarrow> f H s = Inr (store_at H s 0 ?p)"
    using run_prepend_writer [of h b call] by blast
  have "f (h @ [replicate ?n 0 @ ?S]) ?s = Inr (store_at (h @ [replicate ?n 0 @ ?S]) ?s 0 ?p)"
    by (rule w) simp
  moreover have "store_at (h @ [replicate ?n 0 @ ?S]) ?s 0 ?p = h @ [?p @ ?S]"
    by (simp add: store_at_def)
  ultimately show ?thesis
    using prependStart_grow [OF assms, of f] by (simp add: f and_then_simps)
qed

lemma prepend_effect:
  assumes "buf_inv h b"
    and "int (length (prepend_bytes call)) \<le> int (len (buffer b)) - offset b
         \<or> int (length (prepend_bytes call)) + int (len (buffer b)) \<le> maxAlloc"
  shows "\<exists>h' b'. run_prepend h b call = Inr (h', b') \<and> buf_inv h' b'
           \<and> offset b' = offset b + int (length (prepend_bytes call))
           \<and> content h' b' = prepend_bytes call @ content h b"
proof -
  let ?p = "prepend_bytes call" and ?S = "storage h b" and ?c = "nat (offset b)"
  let ?n = "length ?p" and ?C = "len (buffer b)"
  have cC: "?c \<le> ?C" and lS: "length ?S = ?C" and c0: "0 \<le> offset b"
    and ok: "slice_ok h (buffer b)"
    using assms(1) by (simp_all add: cursor_le storage_length) (simp_all add: buf_inv_def)
  have cn: "nat (offset b + int ?n) = ?n + ?c" using c0 by (simp add: nat_add_distrib)
  show ?thesis
  proof (cases "int ?n \<le> int ?C - offset b")
    case True
    let ?X = "take (?C - ?n) ?S"
    let ?h = "store_at h (buffer b) 0 (?p @ ?X)"
    let ?b = "b\<lparr>offset := offset b + int ?n\<rparr>"
    note k = prepend_keep [OF assms(1) True]
    from True c0 have nC: "?n + ?c \<le> ?C" by linarith
    have fit: "lo (buffer b) + 0 + length (?p @ ?X) \<le> length (h ! arr (buffer b))"
      and a: "arr (buffer b) < length h"
      using ok nC lS unfolding slice_ok_def by simp_all
    have "slice_ok ?h (buffer b)" using ok a fit by (rule slice_ok_store_at)
    then have inv: "buf_inv ?h ?b"
      using True c0 by (simp add: buf_inv_def)
    have "content ?h ?b = ?p @ content h b"
      unfolding content_def using k(2) nC lS by (simp add: cn min_def)
    then show ?thesis using k(1) inv by simp
  next
    case False
    let ?s = "\<lparr>arr = length h, lo = 0, len = ?n + ?C, cap = ?n + ?C\<rparr>"
    let ?h = "h @ [?p @ ?S]"
    let ?b = "b\<lparr>buffer := ?s, offset := offset b + int ?n\<rparr>"
    have run: "run_prepend h b call = Inr (?h, ?b)"
      using prepend_grow [OF assms(1), of call] False assms(2) by simp
    have inv: "buf_inv ?h ?b"
      using cC lS c0 unfolding buf_inv_def slice_ok_def by simp
    have "content ?h ?b = ?p @ content h b"
      unfolding content_def using lS cC by (simp add: cn storage_def slice_bytes_def)
    then show ?thesis using run inv by simp
  qed
qed

section \<open>PrependBytes and the caller's slice\<close>

lemma copy_slice_as_copy_in:
  assumes "slice_bytes H v = slice_bytes h v" "length (slice_bytes h v) = len v"
  shows "copy_slice H s v = copy_in H s (slice_bytes h v)"
proof -
  have "take (min (len s) (len v)) (slice_bytes h v) = take (len s) (slice_bytes h v)"
    using assms(2) by (simp add: min_def)
  with assms(1) show ?thesis by (simp add: copy_slice_def copy_in_def)
qed

text \<open>A slice in another array than the buffer's is read as it was at the call, and so
  is any slice when \<^verbatim>\<open>prependStart\<close> reallocates: then \<^verbatim>\<open>PrependBytes\<close> is the prepend of
  the bytes the slice had.\<close>

lemma PrependBytes_apart:
  assumes "buf_inv h b" "slice_ok h v"
    and "arr v \<noteq> arr (buffer b) \<or> int (len (buffer b)) - offset b < int (len v)"
  shows "PrependBytes h b v = run_prepend h b (PBytes (slice_bytes h v))"
proof -
  let ?s = "buffer b" and ?S = "storage h b" and ?n = "int (len v)"
  have lv: "length (slice_bytes h v) = len v" using assms(2) by (rule length_slice_bytes)
  have av: "arr v < length h" using assms(2) by (simp add: slice_ok_def)
  consider (keep) "?n \<le> int (len ?s) - offset b"
    | (grow) "int (len ?s) - offset b < ?n" "?n + int (len ?s) \<le> maxAlloc"
    | (refused) "\<not> (?n \<le> int (len ?s) - offset b \<or> ?n + int (len ?s) \<le> maxAlloc)"
    by linarith
  then show ?thesis
  proof cases
    case keep
    let ?H = "store_at h ?s (nat ?n) (take (len ?s - nat ?n) ?S)"
    from keep assms(3) have "arr v \<noteq> arr ?s" by simp
    then have "slice_bytes ?H v = slice_bytes h v"
      by (simp add: slice_bytes_def store_at_other)
    then have "copy_slice ?H ?s v = copy_in ?H ?s (slice_bytes h v)"
      using lv by (rule copy_slice_as_copy_in)
    then show ?thesis
      using keep by (simp add: PrependBytes_def lv prependStart_keep [OF assms(1)])
  next
    case grow
    let ?H = "h @ [replicate (nat ?n) 0 @ ?S]"
    have "slice_bytes ?H v = slice_bytes h v"
      using av by (rule slice_bytes_append_heap)
    then have "copy_slice ?H t v = copy_in ?H t (slice_bytes h v)" for t
      using lv by (rule copy_slice_as_copy_in)
    then show ?thesis
      using grow by (simp add: PrependBytes_def lv prependStart_grow [OF assms(1)])
  next
    case refused
    then show ?thesis
      by (simp add: PrependBytes_def lv prependStart_refused)
  qed
qed



text \<open>Two prepends in a row: the bytes of the second call come first.\<close>

lemma prepend_returned:
  assumes "buf_inv h b" "run_prepend h b call = Inr (h', b')"
  shows "buf_inv h' b'"
    and "offset b' = offset b + int (length (prepend_bytes call))"
    and "content h' b' = prepend_bytes call @ content h b"
proof -
  have served: "int (length (prepend_bytes call)) \<le> int (len (buffer b)) - offset b
                \<or> int (length (prepend_bytes call)) + int (len (buffer b)) \<le> maxAlloc"
  proof (rule ccontr)
    assume "\<not> ?thesis"
    from run_prepend_refused [OF this, of h] assms(2) show False by simp
  qed
  from prepend_effect [OF assms(1) served] assms(2)
  show "buf_inv h' b'" "offset b' = offset b + int (length (prepend_bytes call))"
    "content h' b' = prepend_bytes call @ content h b"
    by simp_all
qed

lemma prepend_twice:
  assumes "buf_inv h b" "run_prepend h b call1 = Inr (h1, b1)"
    and "run_prepend h1 b1 call2 = Inr (h2, b2)"
  shows "content h2 b2 = prepend_bytes call2 @ prepend_bytes call1 @ content h b"
    and "offset b2 = offset b + int (length (prepend_bytes call1))
                       + int (length (prepend_bytes call2))"
proof -
  note 1 = prepend_returned [OF assms(1,2)]
  note 2 = prepend_returned [OF 1(1) assms(3)]
  from 1 2 show "content h2 b2 = prepend_bytes call2 @ prepend_bytes call1 @ content h b"
    by simp
  from 1 2 show "offset b2 = offset b + int (length (prepend_bytes call1))
                               + int (length (prepend_bytes call2))"
    by simp
qed

section \<open>Prepending\<close>

text \<open>
  Claim C2. The claim holds of every prepend-family call whose bytes lie apart from the
  buffer's array (\<open>prepend_effect\<close> and \<open>prepend_twice\<close>, with \<open>PrependBytes_apart\<close> for the
  slice given to \<^verbatim>\<open>PrependBytes\<close>), and of every call for which \<^verbatim>\<open>prependStart\<close>
  reallocates. It fails where \<^verbatim>\<open>PrependBytes\<close> is given a slice of the buffer's own array
  and there is room: the closure \<^verbatim>\<open>copy(b, v)\<close> runs after the storage has been moved in
  place and reads what the move left. On the buffer \<^verbatim>\<open>[1 2 3 4 0 0 0 0]\<close> with cursor 4,
  the call \<^verbatim>\<open>PrependBytes(b.Bytes()[2:4])\<close>, whose argument holds \<^verbatim>\<open>[3 4]\<close>, leaves the
  content \<^verbatim>\<open>[1 2 1 2 3 4]\<close> and not \<^verbatim>\<open>[3 4 1 2 3 4]\<close>. On the full buffer \<^verbatim>\<open>[1 2 3 4]\<close> the
  same call reallocates and leaves \<^verbatim>\<open>[3 4 1 2 3 4]\<close>.
\<close>

theorem PrependBytes_of_own_bytes_in_place:
  "buf_inv [[1, 2, 3, 4, 0, 0, 0, 0]]
     \<lparr>buffer = \<lparr>arr = 0, lo = 0, len = 8, cap = 8\<rparr>, offset = 4\<rparr>
   \<and> content [[1, 2, 3, 4, 0, 0, 0, 0]]
       \<lparr>buffer = \<lparr>arr = 0, lo = 0, len = 8, cap = 8\<rparr>, offset = 4\<rparr> = [1, 2, 3, 4]
   \<and> slice_bytes [[1, 2, 3, 4, 0, 0, 0, 0]] \<lparr>arr = 0, lo = 2, len = 2, cap = 6\<rparr> = [3, 4]
   \<and> PrependBytes [[1, 2, 3, 4, 0, 0, 0, 0]]
       \<lparr>buffer = \<lparr>arr = 0, lo = 0, len = 8, cap = 8\<rparr>, offset = 4\<rparr>
       \<lparr>arr = 0, lo = 2, len = 2, cap = 6\<rparr>
     = Inr ([[1, 2, 1, 2, 3, 4, 0, 0]],
            \<lparr>buffer = \<lparr>arr = 0, lo = 0, len = 8, cap = 8\<rparr>, offset = 6\<rparr>)
   \<and> content [[1, 2, 1, 2, 3, 4, 0, 0]]
       \<lparr>buffer = \<lparr>arr = 0, lo = 0, len = 8, cap = 8\<rparr>, offset = 6\<rparr> = [1, 2, 1, 2, 3, 4]
   \<and> PrependBytes [[1, 2, 3, 4]]
       \<lparr>buffer = \<lparr>arr = 0, lo = 0, len = 4, cap = 4\<rparr>, offset = 4\<rparr>
       \<lparr>arr = 0, lo = 2, len = 2, cap = 2\<rparr>
     = Inr ([[1, 2, 3, 4], [3, 4, 1, 2, 3, 4]],
            \<lparr>buffer = \<lparr>arr = 1, lo = 0, len = 6, cap = 6\<rparr>, offset = 6\<rparr>)
   \<and> content [[1, 2, 3, 4], [3, 4, 1, 2, 3, 4]]
       \<lparr>buffer = \<lparr>arr = 1, lo = 0, len = 6, cap = 6\<rparr>, offset = 6\<rparr> = [3, 4, 1, 2, 3, 4]"
  by code_simp

text \<open>
  Claim C8. In a state that satisfies the invariant, a prepend of \<open>n\<close> bytes with spare
  tail capacity \<open>C - c\<close> of at least \<open>n\<close> allocates nothing and keeps the buffer's slice.
  Whatever closure writes the new bytes, it is run on the store in which the move has
  already been made: the bytes \<^verbatim>\<open>storage[0:C-n]\<close>, those beyond the cursor included, are
  at \<^verbatim>\<open>storage[n:C]\<close> (the last \<open>n\<close> bytes of the old storage have no place left and
  are overwritten), each byte read from the old storage, so the overlap of source and
  destination does no harm. After the call the storage is the new bytes followed by
  \<^verbatim>\<open>storage[0:C-n]\<close> of before, and no byte outside the storage has changed.
\<close>

theorem prepend_shifts_whole_store_in_place:
  assumes "buf_inv h b"
    and "n = length (prepend_bytes call)" and "C = len (buffer b)"
    and "int n \<le> int C - offset b"
  shows "\<exists>h2 h' b'.
           (\<forall>f. prependStart h b (int n) f
                  = and_then (f h2 (buffer b)) (\<lambda>h3. Inr (h3, b\<lparr>offset := offset b + int n\<rparr>)))
         \<and> length h2 = length h
         \<and> storage h2 b = take n (storage h b) @ take (C - n) (storage h b)
         \<and> (\<forall>i. i < C - n \<longrightarrow> storage h2 b ! (n + i) = storage h b ! i)
         \<and> run_prepend h b call = Inr (h', b')
         \<and> buffer b' = buffer b \<and> length h' = length h
         \<and> storage h' b' = prepend_bytes call @ take (C - n) (storage h b)
         \<and> (\<forall>a i. a \<noteq> arr (buffer b) \<or> i < lo (buffer b) \<or> lo (buffer b) + C \<le> i
                \<longrightarrow> h' ! a ! i = h ! a ! i)"
proof -
  let ?p = "prepend_bytes call" and ?s = "buffer b" and ?S = "storage h b"
  let ?X = "take (C - n) ?S"
  let ?h2 = "store_at h ?s n ?X"
  let ?h' = "store_at h ?s 0 (?p @ ?X)"
  let ?b' = "b\<lparr>offset := offset b + int n\<rparr>"
  from assms have ok: "slice_ok h ?s" and nC: "n \<le> C"
    unfolding buf_inv_def by linarith+
  have lS: "length ?S = C" using assms(1,3) by (simp add: storage_length)
  have lX: "length ?X = C - n" using lS by simp
  have a: "arr ?s < length h" and room: "lo ?s + C \<le> length (h ! arr ?s)"
    using ok assms(3) unfolding slice_ok_def by linarith+
  have shift: "\<forall>f. prependStart h b (int n) f
                 = and_then (f ?h2 ?s) (\<lambda>h3. Inr (h3, ?b'))"
    using prependStart_keep [OF assms(1), of "int n"] assms(3,4) by simp
  have "n + length ?X \<le> len ?s" using nC lX assms(3) by simp
  from slice_bytes_store_at [OF ok this]
  have st2: "storage ?h2 b = take n ?S @ ?X"
    using nC lX lS by (simp add: storage_def del: length_take)
  have mv: "\<forall>i. i < C - n \<longrightarrow> storage ?h2 b ! (n + i) = ?S ! i"
    unfolding st2 using nC lS by (simp add: nth_append)
  note k = prepend_keep [OF assms(1), of call]
  have run: "run_prepend h b call = Inr (?h', ?b')" and st: "storage ?h' ?b' = ?p @ ?X"
    using k assms(2-4) by simp_all
  have fit: "lo ?s + 0 + length (?p @ ?X) \<le> length (h ! arr ?s)"
    using room nC lX assms(2) by simp
  have fr: "\<forall>a i. a \<noteq> arr ?s \<or> i < lo ?s \<or> lo ?s + C \<le> i \<longrightarrow> ?h' ! a ! i = h ! a ! i"
    using store_at_frame [OF a fit] nC lX assms(2) by simp
  from shift st2 mv run st fr show ?thesis
    by (intro exI [of _ ?h2] exI [of _ ?h'] exI [of _ ?b']) (simp add: length_store_at)
qed

theorem prepend_shifts_whole_store_in_place_witness:
  "buf_inv [[1, 2, 3, 4, 5]] \<lparr>buffer = \<lparr>arr = 0, lo = 0, len = 5, cap = 5\<rparr>, offset = 2\<rparr>
   \<and> run_prepend [[1, 2, 3, 4, 5]]
         \<lparr>buffer = \<lparr>arr = 0, lo = 0, len = 5, cap = 5\<rparr>, offset = 2\<rparr> (PBytes [9, 8])
       = Inr ([[9, 8, 1, 2, 3]], \<lparr>buffer = \<lparr>arr = 0, lo = 0, len = 5, cap = 5\<rparr>, offset = 4\<rparr>)
   \<and> storage [[9, 8, 1, 2, 3]] \<lparr>buffer = \<lparr>arr = 0, lo = 0, len = 5, cap = 5\<rparr>, offset = 4\<rparr>
       = prepend_bytes (PBytes [9, 8])
           @ take (5 - 2) (storage [[1, 2, 3, 4, 5]]
               \<lparr>buffer = \<lparr>arr = 0, lo = 0, len = 5, cap = 5\<rparr>, offset = 2\<rparr>)"
proof -
  let ?h = "[[1, 2, 3, 4, 5 :: byte]]"
  let ?b = "\<lparr>buffer = \<lparr>arr = 0, lo = 0, len = 5, cap = 5\<rparr>, offset = 2\<rparr>"
  let ?call = "PBytes [9, 8]"
  have inv: "buf_inv ?h ?b"
    by code_simp
  have n: "2 = length (prepend_bytes ?call)" and C: "5 = len (buffer ?b)"
    and room: "int 2 \<le> int 5 - offset ?b"
    by simp_all
  have run: "run_prepend ?h ?b ?call
               = Inr ([[9, 8, 1, 2, 3]],
                      \<lparr>buffer = \<lparr>arr = 0, lo = 0, len = 5, cap = 5\<rparr>, offset = 4\<rparr>)"
    by code_simp
  from prepend_shifts_whole_store_in_place [OF inv n C room]
  obtain h' b' where "run_prepend ?h ?b ?call = Inr (h', b')"
    and "storage h' b' = prepend_bytes ?call @ take (5 - 2) (storage ?h ?b)"
    by blast
  with run have "storage [[9, 8, 1, 2, 3]]
         \<lparr>buffer = \<lparr>arr = 0, lo = 0, len = 5, cap = 5\<rparr>, offset = 4\<rparr>
       = prepend_bytes ?call @ take (5 - 2) (storage ?h ?b)"
    by simp
  with inv run show ?thesis by blast
qed

section \<open>Writes of no bytes\<close>

text \<open>
  Claim C10. In a state that satisfies the invariant, \<^verbatim>\<open>CopyBytes\<close> and \<^verbatim>\<open>PrependBytes\<close> of
  a slice of length zero (empty or nil: both have no bytes; for \<^verbatim>\<open>PrependBytes\<close> any slice
  of length zero, wherever it points) and \<^verbatim>\<open>CopyString\<close> and \<^verbatim>\<open>PrependString\<close> of the
  empty string return the store and the buffer they were given: the same cursor, the same
  slice (so no new array), and every byte as it was.
\<close>

theorem zero_length_write_changes_nothing:
  assumes "buf_inv h b"
  shows "CopyBytes h b [] = Inr (h, b) \<and> CopyString h b [] = Inr (h, b)
       \<and> (\<forall>v. len v = 0 \<longrightarrow> PrependBytes h b v = Inr (h, b))
       \<and> PrependString h b [] = Inr (h, b)"
proof -
  let ?s = "buffer b"
  from assms have ok: "slice_ok h ?s" and c: "0 \<le> offset b" "offset b \<le> int (len ?s)"
    by (simp_all add: buf_inv_def)
  have a: "arr ?s < length h" and fit: "lo ?s + nat (offset b) \<le> length (h ! arr ?s)"
    and fit0: "lo ?s + 0 \<le> length (h ! arr ?s)"
    using ok c unfolding slice_ok_def by linarith+
  have tail: "store_at h ?s (nat (offset b)) [] = h"
    using a fit by (rule store_at_Nil)
  have head0: "store_at h ?s 0 [] = h"
    using a fit0 by (rule store_at_Nil)
  have head: "store_at h ?s 0 (take (len ?s) (storage h b)) = h"
    unfolding storage_def using ok by (rule store_at_same_bytes) simp
  have same: "b\<lparr>offset := offset b\<rparr> = b" by simp
  have "run_append h b (ACopyBytes []) = Inr (h, b)"
    using append_keep(1) [OF assms, of "ACopyBytes []"] c tail by (simp add: same)
  moreover have "run_append h b (ACopyString []) = Inr (h, b)"
    using append_keep(1) [OF assms, of "ACopyString []"] c tail
    by (simp add: same string_bytes_def)
  moreover have "PrependBytes h b v = Inr (h, b)" if "len v = 0" for v
    using prependStart_keep [OF assms, of 0] c head head0 that
    by (simp add: PrependBytes_def copy_slice_def and_then_simps same)
  moreover have "run_prepend h b (PString []) = Inr (h, b)"
    using prepend_keep(1) [OF assms, of "PString []"] c head
    by (simp add: same string_bytes_def)
  ultimately show ?thesis by simp
qed

theorem zero_length_write_changes_nothing_witness:
  "buf_inv [[1, 2, 3]] \<lparr>buffer = \<lparr>arr = 0, lo = 0, len = 3, cap = 3\<rparr>, offset = 3\<rparr>
   \<and> PrependBytes [[1, 2, 3]] \<lparr>buffer = \<lparr>arr = 0, lo = 0, len = 3, cap = 3\<rparr>, offset = 3\<rparr>
       \<lparr>arr = 0, lo = 1, len = 0, cap = 2\<rparr>
       = Inr ([[1, 2, 3]], \<lparr>buffer = \<lparr>arr = 0, lo = 0, len = 3, cap = 3\<rparr>, offset = 3\<rparr>)
   \<and> CopyBytes [[1, 2, 3]] \<lparr>buffer = \<lparr>arr = 0, lo = 0, len = 3, cap = 3\<rparr>, offset = 3\<rparr> []
       = Inr ([[1, 2, 3]], \<lparr>buffer = \<lparr>arr = 0, lo = 0, len = 3, cap = 3\<rparr>, offset = 3\<rparr>)"
proof -
  have inv: "buf_inv [[1, 2, 3]] \<lparr>buffer = \<lparr>arr = 0, lo = 0, len = 3, cap = 3\<rparr>, offset = 3\<rparr>"
    by code_simp
  from zero_length_write_changes_nothing [OF inv] inv show ?thesis by simp
qed

section \<open>Windows of the storage\<close>

lemma window_range:
  assumes "buf_inv h b" "0 \<le> k" "offset b + k \<le> int (len (buffer b))"
  shows "slice_range (buffer b) (offset b) (offset b + k)
           = Inr \<lparr>arr = arr (buffer b), lo = lo (buffer b) + nat (offset b), len = nat k,
                  cap = cap (buffer b) - nat (offset b)\<rparr>"
proof -
  from assms have "0 \<le> offset b" "offset b + k \<le> int (cap (buffer b))"
    unfolding buf_inv_def slice_ok_def by linarith+
  with assms(2) show ?thesis by (simp add: slice_range_def)
qed

lemma window_bytes:
  assumes "c + k \<le> len s"
  shows "slice_bytes h \<lparr>arr = arr s, lo = lo s + c, len = k, cap = m\<rparr>
           = take k (drop c (slice_bytes h s))"
proof -
  have "take k (drop c (take (len s) (drop (lo s) (h ! arr s))))
          = take k (take (len s - c) (drop (lo s + c) (h ! arr s)))"
    by (simp add: drop_take add.commute)
  also have "\<dots> = take k (drop (lo s + c) (h ! arr s))"
    using assms by (simp add: min_def)
  finally show ?thesis by (simp add: slice_bytes_def)
qed

lemma window_ok:
  assumes "slice_ok h s" "c + k \<le> len s"
  shows "slice_ok h \<lparr>arr = arr s, lo = lo s + c, len = k, cap = cap s - c\<rparr>"
  using assms unfolding slice_ok_def by simp linarith

lemma window_store:
  "store_at h \<lparr>arr = arr s, lo = lo s + c, len = k, cap = m\<rparr> j bs = store_at h s (c + j) bs"
  by (simp add: store_at_def add.assoc)

section \<open>Reading from a source\<close>

lemma ReadInto_request_spare:
  assumes "buf_inv h b" "m \<le> 0"
  shows "ReadInto_request h b m
           = Inr (h, b, \<lparr>arr = arr (buffer b), lo = lo (buffer b) + nat (offset b),
                          len = len (buffer b) - nat (offset b),
                          cap = cap (buffer b) - nat (offset b)\<rparr>)"
proof -
  from assms(1) have c: "0 \<le> offset b" "offset b \<le> int (len (buffer b))"
    by (simp_all add: buf_inv_def)
  then have "nat (int (len (buffer b)) - offset b) = len (buffer b) - nat (offset b)"
    by (simp add: nat_diff_distrib)
  with window_range [OF assms(1), of "int (len (buffer b)) - offset b"] c assms(2)
  show ?thesis
    by (simp add: ReadInto_request_def and_then_simps)
qed

lemma ReadInto_request_bounded:
  assumes "buf_inv h b" "0 < m" "ensureCapacity h b m = Inr (h1, b1)"
  shows "ReadInto_request h b m
           = Inr (h1, b1, \<lparr>arr = arr (buffer b1), lo = lo (buffer b1) + nat (offset b),
                            len = nat m, cap = cap (buffer b1) - nat (offset b)\<rparr>)"
proof -
  have m: "0 \<le> m" using assms(2) by simp
  note e = ensureCapacity_post [OF assms(1) m assms(3)]
  from window_range [OF e(1) m] e(2,3) assms(2,3)
  show ?thesis
    by (simp add: ReadInto_request_def and_then_simps)
qed

lemma ReadInto_finish:
  assumes "ReadInto_request h b m = Inr (h1, b1, p)" "buf_inv h1 b1"
    and "offset b1 + int (len p) \<le> int (len (buffer b1))"
    and "r h1 p = (h2, k, err)" "0 \<le> k" "k \<le> int (len p)"
  shows "ReadInto h b r m
           = Inr (h2, b1\<lparr>offset := offset b1 + k\<rparr>,
                  \<lparr>arr = arr (buffer b1), lo = lo (buffer b1) + nat (offset b1), len = nat k,
                     cap = cap (buffer b1) - nat (offset b1)\<rparr>, err)"
proof -
  have "offset b1 + k \<le> int (len (buffer b1))" using assms(3,6) by linarith
  from window_range [OF assms(2,5) this] assms(1,4)
  show ?thesis
    by (simp add: ReadInto_def and_then_simps)
qed

lemma ReadInto_request_refused:
  assumes "buf_inv h b"
    and "\<not> (m \<le> int (len (buffer b)) - offset b \<or> m + int (len (buffer b)) \<le> maxAlloc)"
  shows "ReadInto_request h b m = Inl MakesliceLenOutOfRange"
    and "ReadInto h b r m = Inl MakesliceLenOutOfRange"
proof -
  from assms have "0 < m" by (auto simp: buf_inv_def)
  with ensureCapacity_refused [OF assms(2), of h]
  show q: "ReadInto_request h b m = Inl MakesliceLenOutOfRange"
    by (simp add: ReadInto_request_def and_then_simps)
  then show "ReadInto h b r m = Inl MakesliceLenOutOfRange"
    by (simp add: ReadInto_def and_then_simps)
qed

lemma ReadInto_request_total:
  assumes "buf_inv h b"
    and "m \<le> int (len (buffer b)) - offset b \<or> m + int (len (buffer b)) \<le> maxAlloc"
    and "bound = (if 0 < m then m else int (len (buffer b)) - offset b)"
  shows "\<exists>h1 b1. ReadInto_request h b m
             = Inr (h1, b1, \<lparr>arr = arr (buffer b1), lo = lo (buffer b1) + nat (offset b),
                              len = nat bound, cap = cap (buffer b1) - nat (offset b)\<rparr>)
           \<and> buf_inv h1 b1 \<and> offset b1 = offset b \<and> 0 \<le> bound
           \<and> offset b + bound \<le> int (len (buffer b1))
           \<and> (if 0 < m then ensureCapacity h b m = Inr (h1, b1) else h1 = h \<and> b1 = b)"
proof (cases "0 < m")
  case False
  then have m: "m \<le> 0" by simp
  from assms(1) have c: "0 \<le> offset b" "offset b \<le> int (len (buffer b))"
    by (simp_all add: buf_inv_def)
  then have "nat (int (len (buffer b)) - offset b) = len (buffer b) - nat (offset b)"
    by (simp add: nat_diff_distrib)
  with ReadInto_request_spare [OF assms(1) m] assms(1,3) False c show ?thesis
    by simp
next
  case True
  then have m0: "0 \<le> m" by simp
  from ensureCapacity_total [OF assms(1) m0 assms(2)] obtain h1 b1
    where e: "ensureCapacity h b m = Inr (h1, b1)" by blast
  note p = ensureCapacity_post [OF assms(1) m0 e]
  from ReadInto_request_bounded [OF assms(1) True e] p True e assms(3) show ?thesis
    by simp
qed

text \<open>The outcome of \<^verbatim>\<open>ReadInto\<close> when \<^verbatim>\<open>make\<close> serves the growth, if any: the slice the
  source is given, and what \<^verbatim>\<open>ReadInto\<close> returns for each answer of the source within the
  bound.\<close>

lemma ReadInto_outcome:
  assumes "buf_inv h b"
    and "m \<le> int (len (buffer b)) - offset b \<or> m + int (len (buffer b)) \<le> maxAlloc"
    and "bound = (if 0 < m then m else int (len (buffer b)) - offset b)"
  shows "\<exists>h1 b1 p. ReadInto_request h b m = Inr (h1, b1, p)
           \<and> p = \<lparr>arr = arr (buffer b1), lo = lo (buffer b1) + nat (offset b),
                    len = nat bound, cap = cap (buffer b1) - nat (offset b)\<rparr>
           \<and> buf_inv h1 b1 \<and> offset b1 = offset b \<and> 0 \<le> bound
           \<and> offset b + bound \<le> int (len (buffer b1))
           \<and> (if 0 < m then ensureCapacity h b m = Inr (h1, b1) else h1 = h \<and> b1 = b)
           \<and> slice_ok h1 p
           \<and> slice_bytes h1 p = take (nat bound) (drop (nat (offset b)) (storage h1 b1))
           \<and> (\<forall>h2 k err. r h1 p = (h2, k, err) \<and> 0 \<le> k \<and> k \<le> bound \<longrightarrow>
                 ReadInto h b r m
                   = Inr (h2, b1\<lparr>offset := offset b + k\<rparr>,
                          \<lparr>arr = arr (buffer b1), lo = lo (buffer b1) + nat (offset b),
                             len = nat k, cap = cap (buffer b1) - nat (offset b)\<rparr>, err)
                 \<and> slice_bytes h2 \<lparr>arr = arr (buffer b1),
                                     lo = lo (buffer b1) + nat (offset b),
                                     len = nat k, cap = cap (buffer b1) - nat (offset b)\<rparr>
                      = take (nat k) (drop (nat (offset b)) (storage h2 b1))
                 \<and> take (nat k) (slice_bytes h2 p)
                      = take (nat k) (drop (nat (offset b)) (storage h2 b1)))"
proof -
  let ?c = "nat (offset b)"
  from ReadInto_request_total [OF assms] obtain h1 b1
    where q: "ReadInto_request h b m
               = Inr (h1, b1, \<lparr>arr = arr (buffer b1), lo = lo (buffer b1) + ?c,
                                len = nat bound, cap = cap (buffer b1) - ?c\<rparr>)"
      and inv1: "buf_inv h1 b1" and off: "offset b1 = offset b" and b0: "0 \<le> bound"
      and fit: "offset b + bound \<le> int (len (buffer b1))"
      and kind: "if 0 < m then ensureCapacity h b m = Inr (h1, b1) else h1 = h \<and> b1 = b"
    by blast
  let ?p = "\<lparr>arr = arr (buffer b1), lo = lo (buffer b1) + ?c, len = nat bound,
             cap = cap (buffer b1) - ?c\<rparr>"
  have ok1: "slice_ok h1 (buffer b1)" and c0: "0 \<le> offset b"
    using inv1 off by (simp_all add: buf_inv_def)
  have fitn: "?c + nat bound \<le> len (buffer b1)" using fit b0 c0 by linarith
  have okp: "slice_ok h1 ?p" using ok1 fitn by (rule window_ok)
  have bytes: "slice_bytes h1 ?p = take (nat bound) (drop ?c (storage h1 b1))"
    using window_bytes [OF fitn] by (simp add: storage_def)
  have fit1: "offset b1 + int (len ?p) \<le> int (len (buffer b1))"
    using fit b0 off by simp
  have each: "ReadInto h b r m
                = Inr (h2, b1\<lparr>offset := offset b + k\<rparr>,
                       \<lparr>arr = arr (buffer b1), lo = lo (buffer b1) + ?c,
                          len = nat k, cap = cap (buffer b1) - ?c\<rparr>, err)
              \<and> slice_bytes h2 \<lparr>arr = arr (buffer b1), lo = lo (buffer b1) + ?c,
                                  len = nat k, cap = cap (buffer b1) - ?c\<rparr>
                   = take (nat k) (drop ?c (storage h2 b1))
              \<and> take (nat k) (slice_bytes h2 ?p) = take (nat k) (drop ?c (storage h2 b1))"
    if r: "r h1 ?p = (h2, k, err)" and k: "0 \<le> k" "k \<le> bound" for h2 k err
  proof -
    have kp: "k \<le> int (len ?p)" using k b0 by simp
    have fitk: "?c + nat k \<le> len (buffer b1)" using fitn k by linarith
    have run: "ReadInto h b r m
                = Inr (h2, b1\<lparr>offset := offset b + k\<rparr>,
                       \<lparr>arr = arr (buffer b1), lo = lo (buffer b1) + ?c,
                          len = nat k, cap = cap (buffer b1) - ?c\<rparr>, err)"
      using ReadInto_finish [where r = r, OF q inv1 fit1 r k(1) kp] off by simp
    have chunk: "slice_bytes h2 \<lparr>arr = arr (buffer b1), lo = lo (buffer b1) + ?c,
                                  len = nat k, cap = cap (buffer b1) - ?c\<rparr>
                   = take (nat k) (drop ?c (storage h2 b1))"
      using window_bytes [OF fitk] by (simp add: storage_def)
    have "slice_bytes h2 ?p = take (nat bound) (drop ?c (storage h2 b1))"
      using window_bytes [OF fitn] by (simp add: storage_def)
    then have "take (nat k) (slice_bytes h2 ?p) = take (nat k) (drop ?c (storage h2 b1))"
      using k by (simp add: min_def)
    with run chunk show ?thesis by simp
  qed
  from q inv1 off b0 fit kind okp bytes each show ?thesis
    by (intro exI [of _ h1] exI [of _ b1] exI [of _ ?p]) blast
qed

text \<open>
  Claim C5. In a state that satisfies the invariant, with capacity \<open>C\<close> and cursor \<open>c\<close>,
  let the bound be \<open>m\<close> when \<open>m > 0\<close> and the spare capacity \<open>C - c\<close> otherwise. When the
  bound fits in the spare capacity or \<^verbatim>\<open>make\<close> serves the growth, \<^verbatim>\<open>ReadInto\<close> calls the
  source with the slice \<^verbatim>\<open>storage[c:c+bound]\<close>, of length exactly the bound, at the cursor.
  Whatever the source does with that slice, if it reports a count \<open>k\<close> between 0 and the
  bound, \<^verbatim>\<open>ReadInto\<close> returns what the source reported as its error, as it is (an error or
  none), with the slice \<^verbatim>\<open>storage[c:c+k]\<close>: its bytes are the \<open>k\<close> bytes that follow the old
  cursor in the store the source left, which are the first \<open>k\<close> bytes of the slice the
  source was given; the cursor is then \<open>c + k\<close>. Otherwise \<^verbatim>\<open>ReadInto\<close> panics in \<^verbatim>\<open>make\<close>
  before the source is called.
\<close>

theorem ReadInto_returns_source_error_and_count:
  assumes "buf_inv h b" and "C = len (buffer b)" and "c = nat (offset b)"
    and "bound = (if 0 < m then m else int C - offset b)"
  shows "if m \<le> int C - offset b \<or> m + int C \<le> maxAlloc
         then \<exists>h1 b1 p. ReadInto_request h b m = Inr (h1, b1, p)
           \<and> p = \<lparr>arr = arr (buffer b1), lo = lo (buffer b1) + c, len = nat bound,
                    cap = cap (buffer b1) - c\<rparr>
           \<and> slice_bytes h1 p = take (nat bound) (drop c (storage h1 b1))
           \<and> (\<forall>h2 k err. r h1 p = (h2, k, err) \<and> 0 \<le> k \<and> k \<le> bound \<longrightarrow>
                 (\<exists>chunk. ReadInto h b r m
                             = Inr (h2, b1\<lparr>offset := offset b + k\<rparr>, chunk, err)
                    \<and> chunk = \<lparr>arr = arr (buffer b1), lo = lo (buffer b1) + c,
                                 len = nat k, cap = cap (buffer b1) - c\<rparr>
                    \<and> slice_bytes h2 chunk = take (nat k) (drop c (storage h2 b1))
                    \<and> slice_bytes h2 chunk = take (nat k) (slice_bytes h2 p)))
         else ReadInto_request h b m = Inl MakesliceLenOutOfRange
            \<and> ReadInto h b r m = Inl MakesliceLenOutOfRange"
proof (cases "m \<le> int C - offset b \<or> m + int C \<le> maxAlloc")
  case False
  then have "\<not> (m \<le> int (len (buffer b)) - offset b \<or> m + int (len (buffer b)) \<le> maxAlloc)"
    using assms(2) by simp
  from ReadInto_request_refused [OF assms(1) this] False show ?thesis by simp
next
  case True
  then have served: "m \<le> int (len (buffer b)) - offset b
                     \<or> m + int (len (buffer b)) \<le> maxAlloc"
    using assms(2) by simp
  have bound: "bound = (if 0 < m then m else int (len (buffer b)) - offset b)"
    using assms(2,4) by simp
  from ReadInto_outcome [OF assms(1) served bound, of r] assms(3) True show ?thesis
    by (simp only: if_True) metis
qed

theorem ReadInto_returns_source_error_and_count_witness:
  "buf_inv [[1, 2, 3, 4, 5]] \<lparr>buffer = \<lparr>arr = 0, lo = 0, len = 5, cap = 5\<rparr>, offset = 2\<rparr>
   \<and> ReadInto [[1, 2, 3, 4, 5]] \<lparr>buffer = \<lparr>arr = 0, lo = 0, len = 5, cap = 5\<rparr>, offset = 2\<rparr>
         (scriptedReader [104, 105] 2 (Some ''EOF'')) 4
       = Inr ([[1, 2, 3, 4, 5], [1, 2, 104, 105, 5, 0, 0, 0, 0]],
              \<lparr>buffer = \<lparr>arr = 1, lo = 0, len = 9, cap = 9\<rparr>, offset = 4\<rparr>,
              \<lparr>arr = 1, lo = 2, len = 2, cap = 7\<rparr>, Some ''EOF'')
   \<and> (\<exists>chunk.
         ReadInto [[1, 2, 3, 4, 5]] \<lparr>buffer = \<lparr>arr = 0, lo = 0, len = 5, cap = 5\<rparr>, offset = 2\<rparr>
           (scriptedReader [104, 105] 2 (Some ''EOF'')) 4
         = Inr ([[1, 2, 3, 4, 5], [1, 2, 104, 105, 5, 0, 0, 0, 0]],
                \<lparr>buffer = \<lparr>arr = 1, lo = 0, len = 9, cap = 9\<rparr>, offset = 2 + 2\<rparr>,
                chunk, Some ''EOF'')
         \<and> slice_bytes [[1, 2, 3, 4, 5], [1, 2, 104, 105, 5, 0, 0, 0, 0]] chunk
             = take 2 (slice_bytes [[1, 2, 3, 4, 5], [1, 2, 104, 105, 5, 0, 0, 0, 0]]
                                   \<lparr>arr = 1, lo = 2, len = 4, cap = 7\<rparr>))"
proof -
  let ?h = "[[1, 2, 3, 4, 5 :: byte]]"
  let ?b = "\<lparr>buffer = \<lparr>arr = 0, lo = 0, len = 5, cap = 5\<rparr>, offset = 2\<rparr>"
  let ?r = "scriptedReader [104, 105] 2 (Some ''EOF'') :: string reader"
  let ?h1 = "[[1, 2, 3, 4, 5], [1, 2, 3, 4, 5, 0, 0, 0, 0 :: byte]]"
  let ?h2 = "[[1, 2, 3, 4, 5], [1, 2, 104, 105, 5, 0, 0, 0, 0 :: byte]]"
  let ?b1 = "\<lparr>buffer = \<lparr>arr = 1, lo = 0, len = 9, cap = 9\<rparr>, offset = 2\<rparr>"
  let ?p = "\<lparr>arr = 1, lo = 2, len = 4, cap = 7\<rparr>"
  have inv: "buf_inv ?h ?b"
    by code_simp
  have run: "ReadInto ?h ?b ?r 4
               = Inr (?h2, \<lparr>buffer = \<lparr>arr = 1, lo = 0, len = 9, cap = 9\<rparr>, offset = 4\<rparr>,
                      \<lparr>arr = 1, lo = 2, len = 2, cap = 7\<rparr>, Some ''EOF'')"
    by code_simp
  have C: "5 = len (buffer ?b)" and c: "2 = nat (offset ?b)"
    and bound: "4 = (if (0 :: int) < 4 then 4 else int 5 - offset ?b)"
    by simp_all
  have served: "4 \<le> int 5 - offset ?b \<or> 4 + int 5 \<le> maxAlloc"
    by (simp add: maxAlloc_def)
  note t = ReadInto_returns_source_error_and_count [OF inv C c bound, of ?r]
  from t [unfolded if_P [OF served]]
  obtain h1 b1 p where q: "ReadInto_request ?h ?b 4 = Inr (h1, b1, p)"
    and all: "\<forall>h2 k err. ?r h1 p = (h2, k, err) \<and> 0 \<le> k \<and> k \<le> 4 \<longrightarrow>
                 (\<exists>chunk. ReadInto ?h ?b ?r 4
                             = Inr (h2, b1\<lparr>offset := offset ?b + k\<rparr>, chunk, err)
                    \<and> slice_bytes h2 chunk = take (nat k) (slice_bytes h2 p))"
    by blast
  have "ReadInto_request ?h ?b 4 = Inr (?h1, ?b1, ?p)"
    by code_simp
  with q have eq: "h1 = ?h1" "b1 = ?b1" "p = ?p" by simp_all
  have "?r ?h1 ?p = (?h2, 2, Some ''EOF'')"
    by code_simp
  with all have "\<exists>chunk. ReadInto ?h ?b ?r 4
                            = Inr (?h2, ?b1\<lparr>offset := offset ?b + 2\<rparr>, chunk, Some ''EOF'')
                    \<and> slice_bytes ?h2 chunk = take (nat 2) (slice_bytes ?h2 ?p)"
    unfolding eq by simp
  then have "\<exists>chunk. ReadInto ?h ?b ?r 4
               = Inr (?h2, \<lparr>buffer = \<lparr>arr = 1, lo = 0, len = 9, cap = 9\<rparr>, offset = 2 + 2\<rparr>,
                      chunk, Some ''EOF'')
             \<and> slice_bytes ?h2 chunk = take 2 (slice_bytes ?h2 ?p)"
    by simp
  with inv run show ?thesis by blast
qed

text \<open>
  Claim C6. In a state that satisfies the invariant, with capacity \<open>C\<close> and
  cursor \<open>c\<close>: for \<open>m \<le> 0\<close>, \<^verbatim>\<open>ReadInto\<close> calls the source on the store and the buffer as
  they are, with the slice \<^verbatim>\<open>storage[c:C]\<close> of length exactly \<open>C - c\<close>, and when the source
  keeps to that bound the result carries the store the source left and the buffer's own
  slice, so nothing is allocated and the capacity is as before. For \<open>m > 0\<close> that fits in
  the spare capacity, or with \<open>m + C\<close> at most the greatest length \<^verbatim>\<open>make\<close> serves,
  \<^verbatim>\<open>ensureCapacity\<close> for \<open>m\<close> bytes runs first (nothing changes when \<open>m\<close> fits, otherwise one
  array of \<open>m + C\<close> bytes is allocated with the old storage as its prefix), the source is
  called on the store and the buffer that leaves, with the slice \<^verbatim>\<open>storage[c:c+m]\<close> of
  length exactly \<open>m\<close>, and when the source keeps to that bound \<^verbatim>\<open>ReadInto\<close> returns the
  store the source left and the cursor \<open>c + k\<close>. For any other \<open>m > 0\<close>, \<^verbatim>\<open>ReadInto\<close> panics in
  \<^verbatim>\<open>make\<close>.
\<close>

theorem ReadInto_bound_on_source:
  assumes "buf_inv h b" and "C = len (buffer b)" and "c = nat (offset b)"
  shows "(m \<le> 0 \<longrightarrow>
           (let p = \<lparr>arr = arr (buffer b), lo = lo (buffer b) + c, len = C - c,
                     cap = cap (buffer b) - c\<rparr>
            in ReadInto_request h b m = Inr (h, b, p)
               \<and> slice_bytes h p = drop c (storage h b)
               \<and> (\<forall>h2 k err. r h p = (h2, k, err) \<and> 0 \<le> k \<and> k \<le> int (C - c) \<longrightarrow>
                     (\<exists>chunk. ReadInto h b r m
                                = Inr (h2, b\<lparr>offset := offset b + k\<rparr>, chunk, err)))))
       \<and> (0 < m \<longrightarrow>
           (if m \<le> int C - offset b \<or> m + int C \<le> maxAlloc
            then \<exists>h1 b1 p. ensureCapacity h b m = Inr (h1, b1)
              \<and> (if m \<le> int C - offset b then h1 = h \<and> b1 = b
                  else h1 = h @ [storage h b @ replicate (nat m) 0]
                     \<and> b1 = b\<lparr>buffer := \<lparr>arr = length h, lo = 0, len = nat m + C,
                                           cap = nat m + C\<rparr>\<rparr>)
              \<and> p = \<lparr>arr = arr (buffer b1), lo = lo (buffer b1) + c, len = nat m,
                       cap = cap (buffer b1) - c\<rparr>
              \<and> ReadInto_request h b m = Inr (h1, b1, p)
              \<and> slice_bytes h1 p = take (nat m) (drop c (storage h1 b1))
              \<and> (\<forall>h2 k err. r h1 p = (h2, k, err) \<and> 0 \<le> k \<and> k \<le> m \<longrightarrow>
                    (\<exists>chunk. ReadInto h b r m
                               = Inr (h2, b1\<lparr>offset := offset b + k\<rparr>, chunk, err)))
            else ensureCapacity h b m = Inl MakesliceLenOutOfRange
               \<and> ReadInto h b r m = Inl MakesliceLenOutOfRange))"
proof (intro conjI impI)
  assume m: "m \<le> 0"
  let ?p = "\<lparr>arr = arr (buffer b), lo = lo (buffer b) + c, len = C - c,
             cap = cap (buffer b) - c\<rparr>"
  have cC: "c \<le> C" and c0: "0 \<le> offset b"
    using assms by (simp_all add: cursor_le) (simp add: buf_inv_def)
  have q: "ReadInto_request h b m = Inr (h, b, ?p)"
    using ReadInto_request_spare [OF assms(1) m] assms(2,3) by simp
  have fit: "offset b + int (len ?p) \<le> int (len (buffer b))"
    using cC c0 assms(2,3) by simp
  have "c + (C - c) \<le> len (buffer b)" using cC assms(2) by simp
  then have bytes: "slice_bytes h ?p = drop c (storage h b)"
    using window_bytes [of c "C - c" "buffer b" h "cap (buffer b) - c"] assms(1,2)
    by (simp add: storage_def buf_inv_def length_slice_bytes)
  have "\<exists>chunk. ReadInto h b r m = Inr (h2, b\<lparr>offset := offset b + k\<rparr>, chunk, err)"
    if "r h ?p = (h2, k, err)" "0 \<le> k" "k \<le> int (C - c)" for h2 k err
    using ReadInto_finish [where r = r, OF q assms(1) fit that(1,2)] that(3) by simp
  with q bytes
  show "let p = ?p
        in ReadInto_request h b m = Inr (h, b, p)
           \<and> slice_bytes h p = drop c (storage h b)
           \<and> (\<forall>h2 k err. r h p = (h2, k, err) \<and> 0 \<le> k \<and> k \<le> int (C - c) \<longrightarrow>
                 (\<exists>chunk. ReadInto h b r m
                            = Inr (h2, b\<lparr>offset := offset b + k\<rparr>, chunk, err)))"
    unfolding Let_def by blast
next
  assume m: "0 < m"
  show "if m \<le> int C - offset b \<or> m + int C \<le> maxAlloc
        then \<exists>h1 b1 p. ensureCapacity h b m = Inr (h1, b1)
          \<and> (if m \<le> int C - offset b then h1 = h \<and> b1 = b
              else h1 = h @ [storage h b @ replicate (nat m) 0]
                 \<and> b1 = b\<lparr>buffer := \<lparr>arr = length h, lo = 0, len = nat m + C,
                                       cap = nat m + C\<rparr>\<rparr>)
          \<and> p = \<lparr>arr = arr (buffer b1), lo = lo (buffer b1) + c, len = nat m,
                   cap = cap (buffer b1) - c\<rparr>
          \<and> ReadInto_request h b m = Inr (h1, b1, p)
          \<and> slice_bytes h1 p = take (nat m) (drop c (storage h1 b1))
          \<and> (\<forall>h2 k err. r h1 p = (h2, k, err) \<and> 0 \<le> k \<and> k \<le> m \<longrightarrow>
                (\<exists>chunk. ReadInto h b r m
                           = Inr (h2, b1\<lparr>offset := offset b + k\<rparr>, chunk, err)))
        else ensureCapacity h b m = Inl MakesliceLenOutOfRange
           \<and> ReadInto h b r m = Inl MakesliceLenOutOfRange"
  proof (cases "m \<le> int C - offset b \<or> m + int C \<le> maxAlloc")
    case False
    then have no: "\<not> (m \<le> int (len (buffer b)) - offset b
                       \<or> m + int (len (buffer b)) \<le> maxAlloc)"
      using assms(2) by simp
    from ensureCapacity_refused [OF no, of h] ReadInto_request_refused(2) [OF assms(1) no, of r]
      False
    show ?thesis by simp
  next
    case True
    then have served: "m \<le> int (len (buffer b)) - offset b
                       \<or> m + int (len (buffer b)) \<le> maxAlloc"
      using assms(2) by simp
    have bound: "m = (if 0 < m then m else int (len (buffer b)) - offset b)"
      using m by simp
    from ReadInto_outcome [OF assms(1) served bound, of r] m obtain h1 b1 p
      where q: "ReadInto_request h b m = Inr (h1, b1, p)"
        and p: "p = \<lparr>arr = arr (buffer b1), lo = lo (buffer b1) + nat (offset b),
                      len = nat m, cap = cap (buffer b1) - nat (offset b)\<rparr>"
        and e: "ensureCapacity h b m = Inr (h1, b1)"
        and bytes: "slice_bytes h1 p = take (nat m) (drop (nat (offset b)) (storage h1 b1))"
        and each: "\<forall>h2 k err. r h1 p = (h2, k, err) \<and> 0 \<le> k \<and> k \<le> m \<longrightarrow>
                     ReadInto h b r m
                       = Inr (h2, b1\<lparr>offset := offset b + k\<rparr>,
                              \<lparr>arr = arr (buffer b1), lo = lo (buffer b1) + nat (offset b),
                                 len = nat k, cap = cap (buffer b1) - nat (offset b)\<rparr>, err)"
      by (simp only: if_True) blast
    have kind: "if m \<le> int C - offset b then h1 = h \<and> b1 = b
                else h1 = h @ [storage h b @ replicate (nat m) 0]
                   \<and> b1 = b\<lparr>buffer := \<lparr>arr = length h, lo = 0, len = nat m + C,
                                         cap = nat m + C\<rparr>\<rparr>"
    proof (cases "m \<le> int C - offset b")
      case True
      with e assms(2) show ?thesis by (simp add: ensureCapacity_keep)
    next
      case False
      with True have "m + int (len (buffer b)) \<le> maxAlloc" using assms(2) by simp
      with e ensureCapacity_grow [OF assms(1), of m] False assms(2) show ?thesis by simp
    qed
    have "\<exists>chunk. ReadInto h b r m = Inr (h2, b1\<lparr>offset := offset b + k\<rparr>, chunk, err)"
      if "r h1 p = (h2, k, err)" "0 \<le> k" "k \<le> m" for h2 k err
      using each that by blast
    with e kind p q bytes assms(3) True show ?thesis
      by (simp only: if_True) blast
  qed
qed

theorem ReadInto_bound_on_source_witness:
  "buf_inv [[1, 2, 3, 4, 5]] \<lparr>buffer = \<lparr>arr = 0, lo = 0, len = 5, cap = 5\<rparr>, offset = 2\<rparr>
   \<and> ReadInto_request [[1, 2, 3, 4, 5]]
         \<lparr>buffer = \<lparr>arr = 0, lo = 0, len = 5, cap = 5\<rparr>, offset = 2\<rparr> 0
       = Inr ([[1, 2, 3, 4, 5]], \<lparr>buffer = \<lparr>arr = 0, lo = 0, len = 5, cap = 5\<rparr>, offset = 2\<rparr>,
              \<lparr>arr = 0, lo = 2, len = 3, cap = 3\<rparr>)
   \<and> ReadInto [[1, 2, 3, 4, 5]] \<lparr>buffer = \<lparr>arr = 0, lo = 0, len = 5, cap = 5\<rparr>, offset = 2\<rparr>
         (stringReader ''hello'' :: unit reader) 0
       = Inr ([[1, 2, 104, 101, 108]],
              \<lparr>buffer = \<lparr>arr = 0, lo = 0, len = 5, cap = 5\<rparr>, offset = 5\<rparr>,
              \<lparr>arr = 0, lo = 2, len = 3, cap = 3\<rparr>, None)
   \<and> ReadInto_request [[1, 2, 3, 4, 5]]
         \<lparr>buffer = \<lparr>arr = 0, lo = 0, len = 5, cap = 5\<rparr>, offset = 2\<rparr> 4
       = Inr ([[1, 2, 3, 4, 5], [1, 2, 3, 4, 5, 0, 0, 0, 0]],
              \<lparr>buffer = \<lparr>arr = 1, lo = 0, len = 9, cap = 9\<rparr>, offset = 2\<rparr>,
              \<lparr>arr = 1, lo = 2, len = 4, cap = 7\<rparr>)
   \<and> (\<exists>chunk.
         ReadInto [[1, 2, 3, 4, 5]] \<lparr>buffer = \<lparr>arr = 0, lo = 0, len = 5, cap = 5\<rparr>, offset = 2\<rparr>
           (stringReader ''hello'' :: unit reader) 4
         = Inr ([[1, 2, 3, 4, 5], [1, 2, 104, 101, 108, 108, 0, 0, 0]],
                \<lparr>buffer = \<lparr>arr = 1, lo = 0, len = 9, cap = 9\<rparr>, offset = 2 + 4\<rparr>,
                chunk, None))"
proof -
  let ?h = "[[1, 2, 3, 4, 5 :: byte]]"
  let ?b = "\<lparr>buffer = \<lparr>arr = 0, lo = 0, len = 5, cap = 5\<rparr>, offset = 2\<rparr>"
  let ?r = "stringReader ''hello'' :: unit reader"
  let ?h1 = "[[1, 2, 3, 4, 5], [1, 2, 3, 4, 5, 0, 0, 0, 0 :: byte]]"
  let ?h2 = "[[1, 2, 3, 4, 5], [1, 2, 104, 101, 108, 108, 0, 0, 0 :: byte]]"
  let ?b1 = "\<lparr>buffer = \<lparr>arr = 1, lo = 0, len = 9, cap = 9\<rparr>, offset = 2\<rparr>"
  let ?p = "\<lparr>arr = 1, lo = 2, len = 4, cap = 7\<rparr>"
  have inv: "buf_inv ?h ?b"
    by code_simp
  have C: "5 = len (buffer ?b)" and c: "2 = nat (offset ?b)"
    by simp_all
  note t = ReadInto_bound_on_source [OF inv C c]
  from t [of 0 ?r]
  have spare: "ReadInto_request ?h ?b 0
                 = Inr (?h, ?b, \<lparr>arr = arr (buffer ?b), lo = lo (buffer ?b) + 2, len = 5 - 2,
                                  cap = cap (buffer ?b) - 2\<rparr>)"
    unfolding Let_def by blast
  have run: "ReadInto ?h ?b ?r 0
               = Inr ([[1, 2, 104, 101, 108]],
                      \<lparr>buffer = \<lparr>arr = 0, lo = 0, len = 5, cap = 5\<rparr>, offset = 5\<rparr>,
                      \<lparr>arr = 0, lo = 2, len = 3, cap = 3\<rparr>, None)"
    by code_simp
  have grown: "ReadInto_request ?h ?b 4 = Inr (?h1, ?b1, ?p)"
    by code_simp
  have pos: "(0 :: int) < 4" by simp
  have served: "4 \<le> int 5 - offset ?b \<or> 4 + int 5 \<le> maxAlloc"
    by (simp add: maxAlloc_def)
  note g = t [of 4 ?r, THEN conjunct2, THEN mp, OF pos]
  from g [unfolded if_P [OF served]]
  obtain h1 b1 p where q: "ReadInto_request ?h ?b 4 = Inr (h1, b1, p)"
    and all: "\<forall>h2 k err. ?r h1 p = (h2, k, err) \<and> 0 \<le> k \<and> k \<le> 4 \<longrightarrow>
                 (\<exists>chunk. ReadInto ?h ?b ?r 4
                             = Inr (h2, b1\<lparr>offset := offset ?b + k\<rparr>, chunk, err))"
    by blast
  from q grown have eq: "h1 = ?h1" "b1 = ?b1" "p = ?p" by simp_all
  have "?r ?h1 ?p = (?h2, 4, None)"
    by code_simp
  with all have "\<exists>chunk. ReadInto ?h ?b ?r 4
                            = Inr (?h2, ?b1\<lparr>offset := offset ?b + 4\<rparr>, chunk, None)"
    unfolding eq by simp
  then have filled: "\<exists>chunk. ReadInto ?h ?b ?r 4
               = Inr (?h2, \<lparr>buffer = \<lparr>arr = 1, lo = 0, len = 9, cap = 9\<rparr>, offset = 2 + 4\<rparr>,
                      chunk, None)"
    by simp
  from spare have "ReadInto_request ?h ?b 0
                     = Inr (?h, ?b, \<lparr>arr = 0, lo = 2, len = 3, cap = 3\<rparr>)"
    by simp
  with inv run grown filled show ?thesis by blast
qed

text \<open>
  Claim C6 as it was stated, for every \<open>m > 0\<close>, fails for a bound that \<^verbatim>\<open>make\<close> refuses:
  on the buffer \<^verbatim>\<open>[1 2 3 4 5]\<close> with cursor 2, \<^verbatim>\<open>ReadInto\<close> with \<^verbatim>\<open>maxSize = 1 << 62\<close>, or
  with the greatest \<^verbatim>\<open>int\<close> (where the sum \<^verbatim>\<open>maxSize + len(b.buffer)\<close> wraps to a negative
  length), panics in \<^verbatim>\<open>make\<close>: no capacity is ensured and the source is not called.
\<close>

theorem ReadInto_huge_bound_panics:
  "buf_inv [[1, 2, 3, 4, 5]] \<lparr>buffer = \<lparr>arr = 0, lo = 0, len = 5, cap = 5\<rparr>, offset = 2\<rparr>
   \<and> ReadInto [[1, 2, 3, 4, 5]] \<lparr>buffer = \<lparr>arr = 0, lo = 0, len = 5, cap = 5\<rparr>, offset = 2\<rparr>
       (stringReader ''hello'' :: unit reader) 4611686018427387904
     = Inl MakesliceLenOutOfRange
   \<and> ReadInto [[1, 2, 3, 4, 5]] \<lparr>buffer = \<lparr>arr = 0, lo = 0, len = 5, cap = 5\<rparr>, offset = 2\<rparr>
       (stringReader ''hello'' :: unit reader) 9223372036854775807
     = Inl MakesliceLenOutOfRange
   \<and> make_bytes [[1, 2, 3, 4, 5]] (wrap64 (9223372036854775807 + 5))
     = Inl MakesliceLenOutOfRange"
  by code_simp

section \<open>Sub-buffers\<close>

lemma SubBuffer_refused:
  assumes "n = (if L < 0 then int (len (buffer b)) - offset b else L)"
    and "\<not> (n \<le> int (len (buffer b)) - offset b \<or> n + int (len (buffer b)) \<le> maxAlloc)"
  shows "SubBuffer h b L = Inl MakesliceLenOutOfRange"
proof -
  have "SubBuffer h b L
          = and_then (ensureCapacity h b n)
              (\<lambda>(h1, b1). and_then (slice_range (buffer b1) (offset b1) (offset b1 + n))
                 (\<lambda>s. Inr (h1, b1\<lparr>offset := offset b1 + n\<rparr>, \<lparr>buffer = s, offset = 0\<rparr>)))"
    unfolding SubBuffer_def Let_def assms(1) by (rule refl)
  with ensureCapacity_refused [OF assms(2), of h] show ?thesis
    by (simp add: and_then_simps)
qed

text \<open>
  Claim C7. In a state that satisfies the invariant, with capacity \<open>C\<close> and cursor \<open>c\<close>,
  \<^verbatim>\<open>SubBuffer\<close> with the length \<open>L\<close> takes as the effective length \<open>L\<close> itself when
  \<open>L \<ge> 0\<close> and the spare tail capacity \<open>C - c\<close> when \<open>L < 0\<close>. When that length fits in
  the spare capacity, or its sum with \<open>C\<close> is at most the greatest length \<^verbatim>\<open>make\<close> serves,
  it runs \<^verbatim>\<open>ensureCapacity\<close> for that length (no change when it fits, which is always so
  for \<open>L < 0\<close>; otherwise the tail grow), advances the parent's cursor by exactly that
  length, and returns a buffer with cursor 0 whose slice is the window of exactly that
  length that starts at the parent's cursor, in the parent's own array: its bytes are the
  parent's bytes there, and a write through it is a write in the parent's storage at the
  same place. For any other length \<^verbatim>\<open>SubBuffer\<close> panics in \<^verbatim>\<open>make\<close>.
\<close>

theorem SubBuffer_is_window_at_cursor:
  assumes "buf_inv h b" and "C = len (buffer b)" and "c = nat (offset b)"
    and "n = (if L < 0 then int C - offset b else L)"
  shows "if n \<le> int C - offset b \<or> n + int C \<le> maxAlloc
         then \<exists>h1 b1 sub.
           ensureCapacity h b n = Inr (h1, b1)
         \<and> (if n \<le> int C - offset b then h1 = h \<and> b1 = b
             else h1 = h @ [storage h b @ replicate (nat n) 0]
                \<and> b1 = b\<lparr>buffer := \<lparr>arr = length h, lo = 0, len = nat n + C,
                                      cap = nat n + C\<rparr>\<rparr>)
         \<and> (L < 0 \<longrightarrow> h1 = h \<and> b1 = b)
         \<and> c + nat n \<le> len (buffer b1)
         \<and> SubBuffer h b L = Inr (h1, b1\<lparr>offset := offset b + n\<rparr>, sub)
         \<and> offset sub = 0
         \<and> buffer sub = \<lparr>arr = arr (buffer b1), lo = lo (buffer b1) + c, len = nat n,
                           cap = cap (buffer b1) - c\<rparr>
         \<and> buf_inv h1 sub
         \<and> storage h1 sub = take (nat n) (drop c (storage h1 b1))
         \<and> (\<forall>k bs. k + length bs \<le> nat n \<longrightarrow>
               storage (store_at h1 (buffer sub) k bs) b1
                 = take (c + k) (storage h1 b1) @ bs
                     @ drop (c + k + length bs) (storage h1 b1))
         else ensureCapacity h b n = Inl MakesliceLenOutOfRange
            \<and> SubBuffer h b L = Inl MakesliceLenOutOfRange"
proof (cases "n \<le> int C - offset b \<or> n + int C \<le> maxAlloc")
  case False
  then have no: "\<not> (n \<le> int (len (buffer b)) - offset b
                     \<or> n + int (len (buffer b)) \<le> maxAlloc)"
    using assms(2) by simp
  have n: "n = (if L < 0 then int (len (buffer b)) - offset b else L)"
    using assms(2,4) by simp
  from ensureCapacity_refused [OF no, of h] SubBuffer_refused [OF n no, of h] False
  show ?thesis by simp
next
  case True
  then have served: "n \<le> int (len (buffer b)) - offset b
                     \<or> n + int (len (buffer b)) \<le> maxAlloc"
    using assms(2) by simp
  have cC: "c \<le> C" and c0: "0 \<le> offset b"
    using assms by (simp_all add: cursor_le) (simp add: buf_inv_def)
  have n0: "0 \<le> n" using assms(2-4) cC c0 by (simp split: if_splits)
  from ensureCapacity_total [OF assms(1) n0 served] obtain h1 b1
    where e: "ensureCapacity h b n = Inr (h1, b1)" by blast
  note p = ensureCapacity_post [OF assms(1) n0 e]
  let ?w = "\<lparr>arr = arr (buffer b1), lo = lo (buffer b1) + c, len = nat n,
             cap = cap (buffer b1) - c\<rparr>"
  let ?sub = "\<lparr>buffer = ?w, offset = 0\<rparr>"
  have ok1: "slice_ok h1 (buffer b1)" using p(1) by (simp add: buf_inv_def)
  have fit: "c + nat n \<le> len (buffer b1)"
    using p(3) n0 c0 assms(3) by linarith
  have kind: "if n \<le> int C - offset b then h1 = h \<and> b1 = b
              else h1 = h @ [storage h b @ replicate (nat n) 0]
                 \<and> b1 = b\<lparr>buffer := \<lparr>arr = length h, lo = 0, len = nat n + C,
                                       cap = nat n + C\<rparr>\<rparr>"
  proof (cases "n \<le> int C - offset b")
    case True
    with e assms(2) show ?thesis by (simp add: ensureCapacity_keep)
  next
    case False
    with served have "n + int (len (buffer b)) \<le> maxAlloc" using assms(2) by simp
    with e ensureCapacity_grow [OF assms(1), of n] False assms(2) show ?thesis by simp
  qed
  have neg: "L < 0 \<longrightarrow> h1 = h \<and> b1 = b"
    using kind assms(4) by (simp split: if_splits)
  have "SubBuffer h b L
          = and_then (ensureCapacity h b n)
              (\<lambda>(h1, b1). and_then (slice_range (buffer b1) (offset b1) (offset b1 + n))
                 (\<lambda>s. Inr (h1, b1\<lparr>offset := offset b1 + n\<rparr>, \<lparr>buffer = s, offset = 0\<rparr>)))"
    unfolding SubBuffer_def Let_def assms(4) assms(2) by (rule refl)
  then have run: "SubBuffer h b L = Inr (h1, b1\<lparr>offset := offset b + n\<rparr>, ?sub)"
    using window_range [OF p(1) n0] p(2,3) e assms(3)
    by (simp add: and_then_simps)
  have wok: "slice_ok h1 ?w" using ok1 fit by (rule window_ok)
  then have inv: "buf_inv h1 ?sub" by (simp add: buf_inv_def)
  have bytes: "storage h1 ?sub = take (nat n) (drop c (storage h1 b1))"
    using window_bytes [OF fit] by (simp add: storage_def)
  have through: "storage (store_at h1 ?w k bs) b1
                 = take (c + k) (storage h1 b1) @ bs @ drop (c + k + length bs) (storage h1 b1)"
    if "k + length bs \<le> nat n" for k bs
  proof -
    from that fit have "c + k + length bs \<le> len (buffer b1)" by linarith
    from slice_bytes_store_at [OF ok1 this] show ?thesis
      by (simp add: storage_def window_store)
  qed
  have "\<exists>h1 b1 sub.
           ensureCapacity h b n = Inr (h1, b1)
         \<and> (if n \<le> int C - offset b then h1 = h \<and> b1 = b
             else h1 = h @ [storage h b @ replicate (nat n) 0]
                \<and> b1 = b\<lparr>buffer := \<lparr>arr = length h, lo = 0, len = nat n + C,
                                      cap = nat n + C\<rparr>\<rparr>)
         \<and> (L < 0 \<longrightarrow> h1 = h \<and> b1 = b)
         \<and> c + nat n \<le> len (buffer b1)
         \<and> SubBuffer h b L = Inr (h1, b1\<lparr>offset := offset b + n\<rparr>, sub)
         \<and> offset sub = 0
         \<and> buffer sub = \<lparr>arr = arr (buffer b1), lo = lo (buffer b1) + c, len = nat n,
                           cap = cap (buffer b1) - c\<rparr>
         \<and> buf_inv h1 sub
         \<and> storage h1 sub = take (nat n) (drop c (storage h1 b1))
         \<and> (\<forall>k bs. k + length bs \<le> nat n \<longrightarrow>
               storage (store_at h1 (buffer sub) k bs) b1
                 = take (c + k) (storage h1 b1) @ bs
                     @ drop (c + k + length bs) (storage h1 b1))"
    using e kind neg fit run inv bytes through
    by (intro exI [of _ h1] exI [of _ b1] exI [of _ ?sub]) simp
  with True show ?thesis by (simp only: if_True)
qed

theorem SubBuffer_is_window_at_cursor_witness:
  "buf_inv [[1, 2, 3, 4, 5]] \<lparr>buffer = \<lparr>arr = 0, lo = 0, len = 5, cap = 5\<rparr>, offset = 2\<rparr>
   \<and> SubBuffer [[1, 2, 3, 4, 5]]
         \<lparr>buffer = \<lparr>arr = 0, lo = 0, len = 5, cap = 5\<rparr>, offset = 2\<rparr> 4
       = Inr ([[1, 2, 3, 4, 5], [1, 2, 3, 4, 5, 0, 0, 0, 0]],
              \<lparr>buffer = \<lparr>arr = 1, lo = 0, len = 9, cap = 9\<rparr>, offset = 6\<rparr>,
              \<lparr>buffer = \<lparr>arr = 1, lo = 2, len = 4, cap = 7\<rparr>, offset = 0\<rparr>)
   \<and> (\<exists>h1 b1 sub.
         SubBuffer [[1, 2, 3, 4, 5]]
           \<lparr>buffer = \<lparr>arr = 0, lo = 0, len = 5, cap = 5\<rparr>, offset = 2\<rparr> 4
         = Inr (h1, b1\<lparr>offset := 2 + 4\<rparr>, sub)
         \<and> storage h1 sub = take 4 (drop 2 (storage h1 b1)))"
proof -
  let ?h = "[[1, 2, 3, 4, 5 :: byte]]"
  let ?b = "\<lparr>buffer = \<lparr>arr = 0, lo = 0, len = 5, cap = 5\<rparr>, offset = 2\<rparr>"
  have inv: "buf_inv ?h ?b"
    by code_simp
  have C: "5 = len (buffer ?b)" and c: "2 = nat (offset ?b)"
    and n: "4 = (if (4 :: int) < 0 then int 5 - offset ?b else 4)"
    by simp_all
  have served: "4 \<le> int 5 - offset ?b \<or> 4 + int 5 \<le> maxAlloc"
    by (simp add: maxAlloc_def)
  have run: "SubBuffer ?h ?b 4
               = Inr ([[1, 2, 3, 4, 5], [1, 2, 3, 4, 5, 0, 0, 0, 0]],
                      \<lparr>buffer = \<lparr>arr = 1, lo = 0, len = 9, cap = 9\<rparr>, offset = 6\<rparr>,
                      \<lparr>buffer = \<lparr>arr = 1, lo = 2, len = 4, cap = 7\<rparr>, offset = 0\<rparr>)"
    by code_simp
  note t = SubBuffer_is_window_at_cursor [OF inv C c n]
  from t [unfolded if_P [OF served]]
  obtain h1 b1 sub where "SubBuffer ?h ?b 4 = Inr (h1, b1\<lparr>offset := offset ?b + 4\<rparr>, sub)"
    and "storage h1 sub = take (nat 4) (drop 2 (storage h1 b1))"
    by blast
  then have "\<exists>h1 b1 sub. SubBuffer ?h ?b 4 = Inr (h1, b1\<lparr>offset := 2 + 4\<rparr>, sub)
               \<and> storage h1 sub = take 4 (drop 2 (storage h1 b1))"
    by auto
  with inv run show ?thesis by blast
qed

text \<open>
  Claim C7 as it was stated, for every length \<open>L\<close>, fails for a length that \<^verbatim>\<open>make\<close>
  refuses: on the buffer \<^verbatim>\<open>[1 2 3 4 5]\<close> with cursor 2, \<^verbatim>\<open>SubBuffer(1 << 62)\<close>, and
  \<^verbatim>\<open>SubBuffer\<close> of the greatest \<^verbatim>\<open>int\<close> (where the sum \<^verbatim>\<open>length + len(b.buffer)\<close> wraps to a
  negative length), panic in \<^verbatim>\<open>make\<close>: no buffer is returned and the cursor stays.
\<close>

theorem SubBuffer_huge_length_panics:
  "buf_inv [[1, 2, 3, 4, 5]] \<lparr>buffer = \<lparr>arr = 0, lo = 0, len = 5, cap = 5\<rparr>, offset = 2\<rparr>
   \<and> SubBuffer [[1, 2, 3, 4, 5]]
       \<lparr>buffer = \<lparr>arr = 0, lo = 0, len = 5, cap = 5\<rparr>, offset = 2\<rparr> 4611686018427387904
     = Inl MakesliceLenOutOfRange
   \<and> SubBuffer [[1, 2, 3, 4, 5]]
       \<lparr>buffer = \<lparr>arr = 0, lo = 0, len = 5, cap = 5\<rparr>, offset = 2\<rparr> 9223372036854775807
     = Inl MakesliceLenOutOfRange
   \<and> make_bytes [[1, 2, 3, 4, 5]] (wrap64 (9223372036854775807 + 5))
     = Inl MakesliceLenOutOfRange"
  by code_simp

section \<open>The invariant\<close>











end
